theory Spec2Isabelle
  imports Main "HOL-Library.AList" "HOL-Library.Multiset"
begin

section \<open>Errors, strings and durations\<close>

text \<open>
  The program is \<^verbatim>\<open>src/tt_time/cli.py\<close>. Exceptions of the source are values:
  a \<^verbatim>\<open>raise ValueError(msg)\<close> is \<open>Inl (ValueError msg)\<close>, and the range errors of
  the standard library's \<^verbatim>\<open>datetime\<close> and \<^verbatim>\<open>timedelta\<close> are \<open>Inl OverflowError\<close>.

  Strings are \<open>char list\<close>, so the model covers ASCII input; Python's Unicode digits and
  Unicode white space are outside it.
\<close>

datatype error = ValueError string | OverflowError

text \<open>
  A \<^verbatim>\<open>timedelta\<close> is its length in microseconds (Python stores days, seconds and
  microseconds, normalised; the length determines all three). The constructor refuses a
  length whose day count exceeds 999999999 in magnitude. Sums of durations in the report
  are not checked against that limit.
\<close>

type_synonym timedelta = int

definition US_PER_SECOND :: int where "US_PER_SECOND = 1000000"
definition US_PER_MINUTE :: int where "US_PER_MINUTE = 60000000"
definition US_PER_HOUR :: int where "US_PER_HOUR = 3600000000"
definition US_PER_DAY :: int where "US_PER_DAY = 86400000000"

definition timedelta_us :: "int \<Rightarrow> error + timedelta" where
  "timedelta_us us =
     (if \<bar>us div US_PER_DAY\<bar> > 999999999 then Inl OverflowError else Inr us)"

definition timedelta_minutes :: "int \<Rightarrow> error + timedelta" where
  "timedelta_minutes n = timedelta_us (n * US_PER_MINUTE)"

subsection \<open>String helpers of the standard library\<close>

definition isdigit :: "char \<Rightarrow> bool" where
  "isdigit c = (c \<in> set ''0123456789'')"

definition str_isdigit :: "string \<Rightarrow> bool" where
  \<comment> \<open>\<^verbatim>\<open>str.isdigit()\<close>: every character is a digit and there is at least one.\<close>
  "str_isdigit s = (s \<noteq> [] \<and> list_all isdigit s)"

definition digit_val :: "char \<Rightarrow> int" where
  "digit_val c = (case map_of (zip ''0123456789'' [0, 1, 2, 3, 4, 5, 6, 7, 8, 9]) c of
                    None \<Rightarrow> 0 | Some v \<Rightarrow> v)"

definition digits_val :: "string \<Rightarrow> int" where
  \<comment> \<open>the number that a run of decimal digits denotes\<close>
  "digits_val s = foldl (\<lambda>a c. 10 * a + digit_val c) 0 s"

definition MAX_STR_DIGITS :: nat where
  \<comment> \<open>\<^verbatim>\<open>sys.int_info.default_max_str_digits\<close>\<close>
  "MAX_STR_DIGITS = 4300"

definition int_of_str :: "string \<Rightarrow> error + int" where
  \<comment> \<open>\<^verbatim>\<open>int(num)\<close> on a run of decimal digits: the conversion refuses a run of more
      than 4300 digits, leading zeros counted (the message is abbreviated here)\<close>
  "int_of_str s =
     (if length s > MAX_STR_DIGITS
      then Inl (ValueError ''Exceeds the limit (4300 digits) for integer string conversion'')
      else Inr (digits_val s))"

definition isspace :: "char \<Rightarrow> bool" where
  \<comment> \<open>the ASCII characters that \<^verbatim>\<open>str.strip()\<close> removes\<close>
  "isspace c = (c \<in> set [CHR '' '', CHR 0x09, CHR 0x0A, CHR 0x0B, CHR 0x0C, CHR 0x0D,
                           CHR 0x1C, CHR 0x1D, CHR 0x1E, CHR 0x1F])"

definition strip :: "string \<Rightarrow> string" where
  "strip s = rev (dropWhile isspace (rev (dropWhile isspace s)))"

definition lower_char :: "char \<Rightarrow> char" where
  "lower_char c =
     (case map_of (zip ''ABCDEFGHIJKLMNOPQRSTUVWXYZ'' ''abcdefghijklmnopqrstuvwxyz'') c of
        None \<Rightarrow> c | Some l \<Rightarrow> l)"

definition lower :: "string \<Rightarrow> string" where
  "lower s = map lower_char s"

section \<open>The duration parser\<close>

text \<open>
  \<^verbatim>\<open>parse_duration\<close> scans the stripped, lower-cased text one character at a time with
  three variables: \<^verbatim>\<open>total\<close> (minutes so far, \<open>tot\<close> here), \<open>num\<close> (the digits read since the last
  unit) and \<open>had_unit\<close>. \<open>scan\<close> is the \<^verbatim>\<open>for ch in s\<close> loop.
\<close>

fun scan :: "string \<Rightarrow> int \<Rightarrow> string \<Rightarrow> bool \<Rightarrow> error + (int \<times> string \<times> bool)" where
  "scan [] tot num had_unit = Inr (tot, num, had_unit)"
| "scan (ch # s) tot num had_unit =
     (if isdigit ch then scan s tot (num @ [ch]) had_unit
      else if ch = CHR ''h'' \<or> ch = CHR ''m'' then
        (if num = [] then Inl (ValueError ''Missing number before unit'')
         else if ch = CHR ''h'' then
           (case int_of_str num of
              Inl e \<Rightarrow> Inl e
            | Inr n \<Rightarrow> scan s (tot + n * 60) [] True)
         else
           (case int_of_str num of
              Inl e \<Rightarrow> Inl e
            | Inr n \<Rightarrow> scan s (tot + n) [] True))
      else if ch = CHR '':'' then scan s tot num had_unit
      else Inl (ValueError (''Unsupported character in duration: '' @ [ch])))"

definition parse_duration :: "string \<Rightarrow> error + timedelta" where
  "parse_duration s =
     (case scan (lower (strip s)) 0 [] False of
        Inl e \<Rightarrow> Inl e
      | Inr (tot, num, had_unit) \<Rightarrow>
          (case (if num \<noteq> [] \<and> \<not> had_unit then
                   (case int_of_str num of
                      Inl e \<Rightarrow> Inl e
                    | Inr n \<Rightarrow> Inr (tot + n))
                 else Inr tot) of
             Inl e \<Rightarrow> Inl e
           | Inr tot' \<Rightarrow>
               if tot' \<le> 0 then Inl (ValueError ''Duration must be > 0'')
               else timedelta_minutes tot'))"

text \<open>
  \<^verbatim>\<open>cmd_log\<close> computes the duration to log from its argument: a plain number (digits
  with at most one point) is read as hours, anything else goes to \<^verbatim>\<open>parse_duration\<close>.
  \<open>cmd_log_duration\<close> is the value of \<^verbatim>\<open>dur\<close> after the \<^verbatim>\<open>try\<close> block, or the
  \<^verbatim>\<open>ValueError\<close> that the block catches and prints.

  The source reads the number with \<^verbatim>\<open>float\<close>, which has no limit on the number
  of digits. Here the decimal is taken exactly, as
  \<open>n / 10 ^ k\<close>, and \<^verbatim>\<open>timedelta(hours=...)\<close> rounds it to the nearest microsecond,
  ties to even. This agrees with the source wherever the decimal and its multiples are
  exact binary floating-point numbers (such as 3.5); the rounding of \<^verbatim>\<open>float\<close> on
  other inputs is not modelled.
\<close>

fun replace_first_dot :: "string \<Rightarrow> string" where
  \<comment> \<open>\<^verbatim>\<open>txt.replace(".", "", 1)\<close>\<close>
  "replace_first_dot [] = []"
| "replace_first_dot (c # s) = (if c = CHR ''.'' then s else c # replace_first_dot s)"

definition frac_digits :: "string \<Rightarrow> nat" where
  \<comment> \<open>the number of characters after the first point, 0 when there is none\<close>
  "frac_digits s = length (drop 1 (dropWhile (\<lambda>c. c \<noteq> CHR ''.'') s))"

definition round_half_even :: "int \<Rightarrow> int \<Rightarrow> int" where
  \<comment> \<open>\<open>num / den\<close> rounded to the nearest integer, ties to even, for \<open>den > 0\<close>\<close>
  "round_half_even num den =
     (let q = num div den; r = num mod den
      in if 2 * r < den then q
         else if 2 * r > den then q + 1
         else if even q then q else q + 1)"

definition timedelta_hours_decimal :: "int \<Rightarrow> nat \<Rightarrow> error + timedelta" where
  \<comment> \<open>\<^verbatim>\<open>timedelta(hours=n / 10 ^ k)\<close>\<close>
  "timedelta_hours_decimal n k = timedelta_us (round_half_even (n * US_PER_HOUR) (10 ^ k))"

definition cmd_log_duration :: "string \<Rightarrow> error + timedelta" where
  "cmd_log_duration duration =
     (let txt = strip duration
      in if str_isdigit (replace_first_dot txt) then
           (let n = digits_val (replace_first_dot txt); k = frac_digits txt
            in if n \<le> 0 then Inl (ValueError ''Duration must be > 0'')
               else timedelta_hours_decimal n k)
         else parse_duration txt)"

section \<open>Dates and times of the standard library\<close>

text \<open>
  The program computes with Python's naive \<^verbatim>\<open>date\<close> and \<^verbatim>\<open>datetime\<close>. A \<^verbatim>\<open>date\<close>
  is modelled by its proleptic Gregorian ordinal (\<^verbatim>\<open>toordinal()\<close>, day 1 is
  0001-01-01), and a \<^verbatim>\<open>datetime\<close> by the number of microseconds that
  \<^verbatim>\<open>datetime.__add__\<close> itself forms: the ordinal of its date in days plus its time of
  day. Comparison, subtraction and the addition of a \<^verbatim>\<open>timedelta\<close> are then the
  integer operations, and year, month and day are read off with the library's
  \<^verbatim>\<open>_ord2ymd\<close>. Dates lie in the years 1 to 9999; arithmetic that leaves this range
  raises \<^verbatim>\<open>OverflowError\<close>, and a constructor called with fields out of range raises
  \<^verbatim>\<open>ValueError\<close>. Time zones are not modelled: every \<^verbatim>\<open>datetime\<close> is naive.
\<close>

type_synonym date = int
type_synonym datetime = int

definition MAXORDINAL :: int where "MAXORDINAL = 3652059"

definition is_leap :: "int \<Rightarrow> bool" where
  "is_leap year = (year mod 4 = 0 \<and> (year mod 100 \<noteq> 0 \<or> year mod 400 = 0))"

definition days_before_year :: "int \<Rightarrow> int" where
  "days_before_year year =
     (let y = year - 1 in y * 365 + y div 4 - y div 100 + y div 400)"

definition DAYS_IN_MONTH :: "int list" where
  "DAYS_IN_MONTH = [-1, 31, 28, 31, 30, 31, 30, 31, 31, 30, 31, 30, 31]"

definition DAYS_BEFORE_MONTH :: "int list" where
  "DAYS_BEFORE_MONTH = [-1, 0, 31, 59, 90, 120, 151, 181, 212, 243, 273, 304, 334]"

definition days_in_month :: "int \<Rightarrow> int \<Rightarrow> int" where
  "days_in_month year month =
     (if month = 2 \<and> is_leap year then 29 else DAYS_IN_MONTH ! nat month)"

definition days_before_month :: "int \<Rightarrow> int \<Rightarrow> int" where
  "days_before_month year month =
     DAYS_BEFORE_MONTH ! nat month + (if month > 2 \<and> is_leap year then 1 else 0)"

definition ymd2ord :: "int \<Rightarrow> int \<Rightarrow> int \<Rightarrow> date" where
  "ymd2ord year month day = days_before_year year + days_before_month year month + day"

definition DI400Y :: int where "DI400Y = 146097"
definition DI100Y :: int where "DI100Y = 36524"
definition DI4Y :: int where "DI4Y = 1461"

definition ord2ymd :: "date \<Rightarrow> int \<times> int \<times> int" where
  "ord2ymd ordinal =
     (let n = ordinal - 1;
          n400 = n div DI400Y; n = n mod DI400Y;
          year = n400 * 400 + 1;
          n100 = n div DI100Y; n = n mod DI100Y;
          n4 = n div DI4Y; n = n mod DI4Y;
          n1 = n div 365; n = n mod 365;
          year = year + n100 * 100 + n4 * 4 + n1
      in if n1 = 4 \<or> n100 = 4 then (year - 1, 12, 31)
         else
           (let leapyear = (n1 = 3 \<and> (n4 \<noteq> 24 \<or> n100 = 3));
                month = (n + 50) div 32;
                preceding = DAYS_BEFORE_MONTH ! nat month
                              + (if month > 2 \<and> leapyear then 1 else 0)
            in if preceding > n then
                 (let month = month - 1;
                      preceding = preceding
                         - (DAYS_IN_MONTH ! nat month + (if month = 2 \<and> leapyear then 1 else 0))
                  in (year, month, n - preceding + 1))
               else (year, month, n - preceding + 1)))"

definition year_of :: "date \<Rightarrow> int" where "year_of d = fst (ord2ymd d)"
definition month_of :: "date \<Rightarrow> int" where "month_of d = fst (snd (ord2ymd d))"
definition day_of :: "date \<Rightarrow> int" where "day_of d = snd (snd (ord2ymd d))"

definition toordinal :: "datetime \<Rightarrow> date" where
  \<comment> \<open>the date of a \<^verbatim>\<open>datetime\<close>: \<^verbatim>\<open>dt.date()\<close>\<close>
  "toordinal dt = dt div US_PER_DAY"

definition midnight :: "date \<Rightarrow> datetime" where
  \<comment> \<open>\<^verbatim>\<open>datetime.combine(d, datetime.min.time())\<close>\<close>
  "midnight d = d * US_PER_DAY"

definition datetime_new :: "int \<Rightarrow> int \<Rightarrow> int \<Rightarrow> error + datetime" where
  \<comment> \<open>\<^verbatim>\<open>datetime(year, month, day)\<close>, with the checks of the constructor\<close>
  "datetime_new year month day =
     (if \<not> (1 \<le> year \<and> year \<le> 9999) then Inl (ValueError ''year must be in 1..9999'')
      else if \<not> (1 \<le> month \<and> month \<le> 12) then Inl (ValueError ''month must be in 1..12'')
      else if \<not> (1 \<le> day \<and> day \<le> days_in_month year month)
        then Inl (ValueError ''day is out of range for month'')
      else Inr (midnight (ymd2ord year month day)))"

definition datetime_add :: "datetime \<Rightarrow> timedelta \<Rightarrow> error + datetime" where
  \<comment> \<open>\<^verbatim>\<open>datetime.__add__\<close>\<close>
  "datetime_add dt delta =
     (let r = dt + delta
      in if 0 < r div US_PER_DAY \<and> r div US_PER_DAY \<le> MAXORDINAL then Inr r
         else Inl OverflowError)"

definition date_add_days :: "date \<Rightarrow> int \<Rightarrow> error + date" where
  \<comment> \<open>\<^verbatim>\<open>date.__add__\<close> with \<^verbatim>\<open>timedelta(days=n)\<close>\<close>
  "date_add_days d n =
     (let o' = d + n in if 0 < o' \<and> o' \<le> MAXORDINAL then Inr o' else Inl OverflowError)"

definition replace_midnight :: "datetime \<Rightarrow> datetime" where
  \<comment> \<open>\<^verbatim>\<open>dt.replace(hour=0, minute=0, second=0, microsecond=0)\<close>\<close>
  "replace_midnight dt = midnight (toordinal dt)"

fun dec_digits :: "nat \<Rightarrow> string" where
  "dec_digits n =
     (if n < 10 then [''0123456789'' ! n]
      else dec_digits (n div 10) @ [''0123456789'' ! (n mod 10)])"

definition zero_pad :: "nat \<Rightarrow> int \<Rightarrow> string" where
  \<comment> \<open>the format \<^verbatim>\<open>%0wd\<close> on a number that is not negative\<close>
  "zero_pad w n = (let s = dec_digits (nat n) in replicate (w - length s) CHR ''0'' @ s)"

definition date_isoformat :: "date \<Rightarrow> string" where
  \<comment> \<open>\<^verbatim>\<open>"%04d-%02d-%02d" % (year, month, day)\<close>\<close>
  "date_isoformat d =
     (case ord2ymd d of (y, m, dd) \<Rightarrow> zero_pad 4 y @ ''-'' @ zero_pad 2 m @ ''-'' @ zero_pad 2 dd)"

definition isoweek1monday :: "int \<Rightarrow> date" where
  "isoweek1monday year =
     (let firstday = ymd2ord year 1 1;
          firstweekday = (firstday + 6) mod 7;
          week1monday = firstday - firstweekday
      in if firstweekday > 3 then week1monday + 7 else week1monday)"

definition isocalendar :: "date \<Rightarrow> int \<times> int \<times> int" where
  \<comment> \<open>\<^verbatim>\<open>date.isocalendar()\<close>; \<^verbatim>\<open>today\<close> is the ordinal of the date itself\<close>
  "isocalendar d =
     (let year = year_of d;
          week1monday = isoweek1monday year;
          today = d;
          week = (today - week1monday) div 7;
          day = (today - week1monday) mod 7
      in if week < 0 then
           (let year = year - 1;
                week1monday = isoweek1monday year;
                week = (today - week1monday) div 7;
                day = (today - week1monday) mod 7
            in (year, week + 1, day + 1))
         else if week \<ge> 52 \<and> today \<ge> isoweek1monday (year + 1) then (year + 1, 0 + 1, day + 1)
         else (year, week + 1, day + 1))"

section \<open>Month window, next midnight and clamping\<close>

definition start_of_month :: "date \<Rightarrow> error + datetime" where
  "start_of_month d = datetime_new (year_of d) (month_of d) 1"

definition end_of_month :: "date \<Rightarrow> error + datetime" where
  "end_of_month d =
     (if month_of d = 12 then datetime_new (year_of d + 1) 1 1
      else datetime_new (year_of d) (month_of d + 1) 1)"

definition day_span :: "datetime \<Rightarrow> error + datetime" where
  \<comment> \<open>next midnight from \<open>dt\<close>\<close>
  "day_span dt =
     (case datetime_add dt US_PER_DAY of
        Inl e \<Rightarrow> Inl e
      | Inr next_day \<Rightarrow> Inr (replace_midnight next_day))"

definition clamp_interval ::
  "datetime \<Rightarrow> datetime \<Rightarrow> datetime \<Rightarrow> datetime \<Rightarrow> (datetime \<times> datetime) option" where
  "clamp_interval a b lo hi =
     (let start = max a lo; end_t = min b hi
      in if end_t \<le> start then None else Some (start, end_t))"

section \<open>The ledger and the totals\<close>

text \<open>
  A ledger entry is a JSON object. The report reads three of its keys, each of which is
  absent, \<^verbatim>\<open>null\<close> or a string, so an entry is a map from key to value and
  \<^verbatim>\<open>e.get(k)\<close> is \<open>e k\<close>, with \<open>None\<close> and \<open>Some JNull\<close> both standing for Python's
  \<^verbatim>\<open>None\<close>. Values of other JSON types are outside the model.

  The dictionaries built by the report are association lists with distinct keys, in
  insertion order as a Python \<^verbatim>\<open>dict\<close> keeps them: \<open>AList.update\<close> replaces the
  value of a key that is present and appends a key that is not.
\<close>

datatype jval = JNull | JStr string

type_synonym entry = "string \<rightharpoonup> jval"

type_synonym project_totals = "(jval \<times> timedelta) list"
type_synonym day_totals = "(string \<times> project_totals) list"
type_synonym totals = "day_totals \<times> project_totals"

definition dict_get :: "('k \<times> 'v) list \<Rightarrow> 'k \<Rightarrow> 'v \<Rightarrow> 'v" where
  \<comment> \<open>\<^verbatim>\<open>d.get(k, default)\<close>\<close>
  "dict_get d k dflt = (case map_of d k of None \<Rightarrow> dflt | Some v \<Rightarrow> v)"

definition setdefault :: "('k \<times> 'v) list \<Rightarrow> 'k \<Rightarrow> 'v \<Rightarrow> ('k \<times> 'v) list" where
  \<comment> \<open>\<^verbatim>\<open>d.setdefault(k, default)\<close>, for its effect on \<open>d\<close>\<close>
  "setdefault d k dflt = (case map_of d k of None \<Rightarrow> d @ [(k, dflt)] | Some v \<Rightarrow> d)"

definition truthy :: "jval option \<Rightarrow> bool" where
  \<comment> \<open>the truth value Python gives to the result of \<^verbatim>\<open>e.get(k)\<close>\<close>
  "truthy v = (case v of Some (JStr s) \<Rightarrow> s \<noteq> [] | _ \<Rightarrow> False)"

definition str_of :: "jval option \<Rightarrow> string" where
  "str_of v = (case v of Some (JStr s) \<Rightarrow> s | _ \<Rightarrow> [])"

definition day_key_of :: "datetime \<Rightarrow> string" where
  \<comment> \<open>\<^verbatim>\<open>cur_start.date().isoformat()\<close>\<close>
  "day_key_of cur_start = date_isoformat (toordinal cur_start)"

definition add_segment :: "totals \<Rightarrow> string \<Rightarrow> jval \<Rightarrow> timedelta \<Rightarrow> totals" where
  \<comment> \<open>the three statements that add \<open>dur\<close> to both dictionaries;
      after \<^verbatim>\<open>setdefault\<close> the key \<open>day_key\<close> is present, so the read of
      \<^verbatim>\<open>per_day_totals[day_key]\<close> cannot fail\<close>
  "add_segment st day_key proj dur =
     (case st of (per_day_totals, monthly_project_totals) \<Rightarrow>
        (let pd1 = setdefault per_day_totals day_key [];
             projects = dict_get pd1 day_key [];
             pd2 = AList.update day_key
                     (AList.update proj (dict_get projects proj 0 + dur) projects) pd1;
             mt = AList.update proj (dict_get monthly_project_totals proj 0 + dur)
                     monthly_project_totals
         in (pd2, mt)))"

text \<open>
  The \<^verbatim>\<open>while cur_start < cur_end\<close> loop of \<^verbatim>\<open>cmd_report\<close>. It ends because the
  next midnight lies after \<open>cur_start\<close>, so each round moves \<open>cur_start\<close> forward.
\<close>

function split_loop :: "jval \<Rightarrow> datetime \<Rightarrow> datetime \<Rightarrow> totals \<Rightarrow> error + totals" where
  "split_loop proj cur_start cur_end st =
     (if cur_start < cur_end then
        (case day_span cur_start of
           Inl e \<Rightarrow> Inl e
         | Inr next_midnight \<Rightarrow>
             split_loop proj (min cur_end next_midnight) cur_end
               (add_segment st (day_key_of cur_start) proj
                  (min cur_end next_midnight - cur_start)))
      else Inr st)"
  by pat_completeness auto
termination
proof (relation "measure (\<lambda>(proj, cur_start, cur_end, st). nat (cur_end - cur_start))")
  show "wf (measure (\<lambda>(proj, cur_start, cur_end, st). nat (cur_end - cur_start)))"
    by simp
next
  fix proj :: jval and cur_start cur_end :: datetime and st :: totals and next_midnight
  assume lt: "cur_start < cur_end" and ds: "day_span cur_start = Inr next_midnight"
  have "next_midnight = (cur_start + US_PER_DAY) div US_PER_DAY * US_PER_DAY"
    using ds
    by (simp add: day_span_def datetime_add_def replace_midnight_def midnight_def
        toordinal_def Let_def split: if_splits)
  also have "\<dots> = cur_start + US_PER_DAY - (cur_start + US_PER_DAY) mod US_PER_DAY"
    by (simp add: algebra_simps minus_mod_eq_mult_div [symmetric])
  finally have "cur_start < next_midnight"
    using pos_mod_bound[of US_PER_DAY "cur_start + US_PER_DAY"]
    by (simp add: US_PER_DAY_def)
  with lt show "((proj, min cur_end next_midnight, cur_end,
                  add_segment st (day_key_of cur_start) proj
                    (min cur_end next_midnight - cur_start)),
                 (proj, cur_start, cur_end, st))
                \<in> measure (\<lambda>(proj, cur_start, cur_end, st). nat (cur_end - cur_start))"
    by simp
qed

declare split_loop.simps [simp del]

text \<open>
  The same loop, recording instead of adding: the list of the pairs
  \<open>(cur_start, seg_end)\<close> it visits, in the order it visits them.
\<close>

function day_segments :: "datetime \<Rightarrow> datetime \<Rightarrow> error + (datetime \<times> datetime) list" where
  "day_segments cur_start cur_end =
     (if cur_start < cur_end then
        (case day_span cur_start of
           Inl e \<Rightarrow> Inl e
         | Inr next_midnight \<Rightarrow>
             (case day_segments (min cur_end next_midnight) cur_end of
                Inl e \<Rightarrow> Inl e
              | Inr segs \<Rightarrow> Inr ((cur_start, min cur_end next_midnight) # segs)))
      else Inr [])"
  by pat_completeness auto
termination
proof (relation "measure (\<lambda>(cur_start, cur_end). nat (cur_end - cur_start))")
  show "wf (measure (\<lambda>(cur_start, cur_end). nat (cur_end - cur_start)))"
    by simp
next
  fix cur_start cur_end :: datetime and next_midnight
  assume lt: "cur_start < cur_end" and ds: "day_span cur_start = Inr next_midnight"
  have "next_midnight = (cur_start + US_PER_DAY) div US_PER_DAY * US_PER_DAY"
    using ds
    by (simp add: day_span_def datetime_add_def replace_midnight_def midnight_def
        toordinal_def Let_def split: if_splits)
  also have "\<dots> = cur_start + US_PER_DAY - (cur_start + US_PER_DAY) mod US_PER_DAY"
    by (simp add: algebra_simps minus_mod_eq_mult_div [symmetric])
  finally have "cur_start < next_midnight"
    using pos_mod_bound[of US_PER_DAY "cur_start + US_PER_DAY"]
    by (simp add: US_PER_DAY_def)
  with lt show "((min cur_end next_midnight, cur_end), (cur_start, cur_end))
                \<in> measure (\<lambda>(cur_start, cur_end). nat (cur_end - cur_start))"
    by simp
qed

declare day_segments.simps [simp del]

text \<open>
  One round of the \<^verbatim>\<open>for e in data\<close> loop. \<open>parse\<close> stands for
  \<^verbatim>\<open>datetime.fromisoformat\<close>, which either returns a \<^verbatim>\<open>datetime\<close> or raises
  \<^verbatim>\<open>ValueError\<close>; the program does not catch that exception here.
\<close>

definition effective_end ::
  "(string \<Rightarrow> error + datetime) \<Rightarrow> datetime \<Rightarrow> jval option \<Rightarrow> error + datetime" where
  \<comment> \<open>\<^verbatim>\<open>datetime.fromisoformat(end_s) if end_s else now\<close>\<close>
  "effective_end parse now end_s = (if truthy end_s then parse (str_of end_s) else Inr now)"

definition process_entry ::
  "(string \<Rightarrow> error + datetime) \<Rightarrow> datetime \<Rightarrow> datetime \<Rightarrow> datetime \<Rightarrow> totals \<Rightarrow> entry
     \<Rightarrow> error + totals" where
  "process_entry parse now month_start month_end st e =
     (let proj = (case e ''project'' of None \<Rightarrow> JStr ''(unknown)'' | Some v \<Rightarrow> v);
          start_s = e ''start'';
          end_s = e ''end''
      in if \<not> truthy start_s then Inr st
         else
           (case parse (str_of start_s) of
              Inl err \<Rightarrow> Inl err
            | Inr start \<Rightarrow>
                (case effective_end parse now end_s of
                   Inl err \<Rightarrow> Inl err
                 | Inr end_t \<Rightarrow>
                     (case clamp_interval start end_t month_start month_end of
                        None \<Rightarrow> Inr st
                      | Some (cur_start, cur_end) \<Rightarrow> split_loop proj cur_start cur_end st))))"

fun report_loop ::
  "(string \<Rightarrow> error + datetime) \<Rightarrow> datetime \<Rightarrow> datetime \<Rightarrow> datetime \<Rightarrow> totals \<Rightarrow> entry list
     \<Rightarrow> error + totals" where
  "report_loop parse now month_start month_end st [] = Inr st"
| "report_loop parse now month_start month_end st (e # data) =
     (case process_entry parse now month_start month_end st e of
        Inl err \<Rightarrow> Inl err
      | Inr st' \<Rightarrow> report_loop parse now month_start month_end st' data)"

definition aggregate ::
  "(string \<Rightarrow> error + datetime) \<Rightarrow> datetime \<Rightarrow> datetime \<Rightarrow> datetime \<Rightarrow> entry list
     \<Rightarrow> error + totals" where
  \<comment> \<open>both dictionaries start empty\<close>
  "aggregate parse now month_start month_end data =
     report_loop parse now month_start month_end ([], []) data"

definition cmd_report_window :: "datetime \<Rightarrow> error + (datetime \<times> datetime)" where
  \<comment> \<open>\<^verbatim>\<open>month_start\<close> and \<^verbatim>\<open>month_end\<close> of the month that contains \<open>now\<close>\<close>
  "cmd_report_window now =
     (let today = toordinal now
      in case start_of_month today of
           Inl e \<Rightarrow> Inl e
         | Inr month_start \<Rightarrow>
             (case end_of_month today of
                Inl e \<Rightarrow> Inl e
              | Inr month_end \<Rightarrow> Inr (month_start, month_end)))"

definition cmd_report_totals ::
  "(string \<Rightarrow> error + datetime) \<Rightarrow> datetime \<Rightarrow> entry list \<Rightarrow> error + totals" where
  "cmd_report_totals parse now data =
     (case cmd_report_window now of
        Inl e \<Rightarrow> Inl e
      | Inr (month_start, month_end) \<Rightarrow> aggregate parse now month_start month_end data)"

section \<open>Days of the window and ISO weeks\<close>

text \<open>
  The loop that lists the days of the month, from the date of \<^verbatim>\<open>month_start\<close> while
  the day's midnight lies before \<^verbatim>\<open>month_end\<close>.
\<close>

function days_loop :: "date \<Rightarrow> datetime \<Rightarrow> date list \<Rightarrow> error + date list" where
  "days_loop dcur month_end days =
     (if midnight dcur < month_end then
        (case date_add_days dcur 1 of
           Inl e \<Rightarrow> Inl e
         | Inr dnext \<Rightarrow> days_loop dnext month_end (days @ [dcur]))
      else Inr days)"
  by pat_completeness auto
termination
proof (relation "measure (\<lambda>(dcur, month_end, days). nat (month_end - midnight dcur))")
  show "wf (measure (\<lambda>(dcur, month_end, days). nat (month_end - midnight dcur)))"
    by simp
next
  fix dcur :: date and month_end :: datetime and days :: "date list" and dnext
  assume lt: "midnight dcur < month_end" and nx: "date_add_days dcur 1 = Inr dnext"
  have "dnext = dcur + 1"
    using nx by (simp add: date_add_days_def Let_def split: if_splits)
  then have "midnight dnext = midnight dcur + US_PER_DAY"
    by (simp add: midnight_def algebra_simps)
  with lt show "((dnext, month_end, days @ [dcur]), (dcur, month_end, days))
                \<in> measure (\<lambda>(dcur, month_end, days). nat (month_end - midnight dcur))"
    by (simp add: US_PER_DAY_def)
qed

declare days_loop.simps [simp del]

definition iso_week_key :: "date \<Rightarrow> int \<times> int" where
  \<comment> \<open>\<^verbatim>\<open>(iso[0], iso[1])\<close>\<close>
  "iso_week_key dday = (case isocalendar dday of (y, w, wd) \<Rightarrow> (y, w))"

definition weeks_step ::
  "(date \<Rightarrow> 'k) \<Rightarrow> ('k \<times> date list) list \<Rightarrow> date \<Rightarrow> ('k \<times> date list) list" where
  \<comment> \<open>one round of \<^verbatim>\<open>for dday in days\<close>, for the key function \<open>key\<close>\<close>
  "weeks_step key weeks dday =
     (let k = key dday;
          weeks1 = (if map_of weeks k = None then AList.update k [] weeks else weeks)
      in AList.update k (dict_get weeks1 k [] @ [dday]) weeks1)"

definition group_weeks :: "date list \<Rightarrow> ((int \<times> int) \<times> date list) list" where
  "group_weeks days = foldl (weeks_step iso_week_key) [] days"

definition cmd_report_weeks ::
  "datetime \<Rightarrow> datetime \<Rightarrow> error + ((int \<times> int) \<times> date list) list" where
  "cmd_report_weeks month_start month_end =
     (case days_loop (toordinal month_start) month_end [] of
        Inl e \<Rightarrow> Inl e
      | Inr days \<Rightarrow> Inr (group_weeks days))"

section \<open>Derived views used to state the properties\<close>

text \<open>
  The day segments of one interval against a window: none when clamping finds no
  overlap, and otherwise the rounds of the splitting loop on the clamped interval.
\<close>

definition interval_segments ::
  "datetime \<Rightarrow> datetime \<Rightarrow> datetime \<Rightarrow> datetime \<Rightarrow> error + (datetime \<times> datetime) list" where
  "interval_segments a b lo hi =
     (case clamp_interval a b lo hi of
        None \<Rightarrow> Inr []
      | Some (cur_start, cur_end) \<Rightarrow> day_segments cur_start cur_end)"

definition seg_duration :: "datetime \<times> datetime \<Rightarrow> timedelta" where
  "seg_duration seg = snd seg - fst seg"

definition add_seg :: "jval \<Rightarrow> totals \<Rightarrow> datetime \<times> datetime \<Rightarrow> totals" where
  \<comment> \<open>what one round of the splitting loop adds for the segment it visits\<close>
  "add_seg proj st seg = add_segment st (day_key_of (fst seg)) proj (seg_duration seg)"

fun contiguous :: "datetime \<Rightarrow> (datetime \<times> datetime) list \<Rightarrow> datetime \<Rightarrow> bool" where
  \<comment> \<open>the segments run from \<open>a\<close> to \<open>b\<close> in time order, each starting where the last ended\<close>
  "contiguous a [] b = (a = b)"
| "contiguous a (seg # segs) b = (fst seg = a \<and> contiguous (snd seg) segs b)"

definition one_day :: "datetime \<times> datetime \<Rightarrow> bool" where
  \<comment> \<open>the segment ends no later than the midnight that follows its start\<close>
  "one_day seg = (snd seg \<le> midnight (toordinal (fst seg) + 1))"

definition day_project_sum :: "day_totals \<Rightarrow> jval \<Rightarrow> timedelta" where
  \<comment> \<open>\<^verbatim>\<open>sum(per_day_totals[d].get(p, 0) for d in per_day_totals)\<close>\<close>
  "day_project_sum per_day_totals p =
     sum_list (map (\<lambda>(d, projects). dict_get projects p 0) per_day_totals)"

definition day_view :: "day_totals \<Rightarrow> string \<Rightarrow> (jval \<rightharpoonup> timedelta) option" where
  \<comment> \<open>\<^verbatim>\<open>per_day_totals\<close> as a mapping from day to a mapping from project to duration\<close>
  "day_view per_day_totals d = map_option map_of (map_of per_day_totals d)"

text \<open>
  An instance of \<^verbatim>\<open>datetime.fromisoformat\<close> for closed examples: it reads the
  19 characters \<^verbatim>\<open>YYYY-MM-DDTHH:MM:SS\<close>, the form \<^verbatim>\<open>isoformat()\<close> writes for a time
  with whole seconds, and raises on any other text. The properties of the report are
  proved for every \<open>parse\<close>; this instance only feeds examples.
\<close>

definition fromisoformat_seconds :: "string \<Rightarrow> error + datetime" where
  "fromisoformat_seconds s =
     (let y = take 4 s; m = take 2 (drop 5 s); d = take 2 (drop 8 s);
          hh = take 2 (drop 11 s); mm = take 2 (drop 14 s); ss = take 2 (drop 17 s)
      in if length s = 19 \<and> list_all isdigit (y @ m @ d @ hh @ mm @ ss)
            \<and> s ! 4 = CHR ''-'' \<and> s ! 7 = CHR ''-'' \<and> s ! 10 = CHR ''T''
            \<and> s ! 13 = CHR '':'' \<and> s ! 16 = CHR '':''
            \<and> digits_val hh < 24 \<and> digits_val mm < 60 \<and> digits_val ss < 60
         then
           (case datetime_new (digits_val y) (digits_val m) (digits_val d) of
              Inl e \<Rightarrow> Inl (ValueError ''Invalid isoformat string'')
            | Inr t \<Rightarrow> Inr (t + digits_val hh * US_PER_HOUR + digits_val mm * US_PER_MINUTE
                              + digits_val ss * US_PER_SECOND))
         else Inl (ValueError ''Invalid isoformat string''))"

definition datetime_hms :: "int \<Rightarrow> int \<Rightarrow> int \<Rightarrow> int \<Rightarrow> int \<Rightarrow> int \<Rightarrow> datetime" where
  \<comment> \<open>\<^verbatim>\<open>datetime(year, month, day, hour, minute, second)\<close> for fields in range\<close>
  "datetime_hms y m d hh mm ss =
     midnight (ymd2ord y m d) + hh * US_PER_HOUR + mm * US_PER_MINUTE + ss * US_PER_SECOND"

definition entry_project :: "entry \<Rightarrow> jval" where
  \<comment> \<open>\<^verbatim>\<open>e.get("project", "(unknown)")\<close>\<close>
  "entry_project e = (case e ''project'' of None \<Rightarrow> JStr ''(unknown)'' | Some v \<Rightarrow> v)"

definition entry_segments ::
  "(string \<Rightarrow> error + datetime) \<Rightarrow> datetime \<Rightarrow> datetime \<Rightarrow> datetime \<Rightarrow> entry
     \<Rightarrow> error + (datetime \<times> datetime) list" where
  \<comment> \<open>the segments one round of the report loop visits for the entry \<open>e\<close>\<close>
  "entry_segments parse now month_start month_end e =
     (if \<not> truthy (e ''start'') then Inr []
      else
        (case parse (str_of (e ''start'')) of
           Inl err \<Rightarrow> Inl err
         | Inr start \<Rightarrow>
             (case effective_end parse now (e ''end'') of
                Inl err \<Rightarrow> Inl err
              | Inr end_t \<Rightarrow> interval_segments start end_t month_start month_end)))"

definition totals_consistent :: "totals \<Rightarrow> bool" where
  \<comment> \<open>keys are unique, the monthly total of each project is the sum of its daily
      totals, and a project has a monthly total exactly when some day lists it\<close>
  "totals_consistent st =
     (case st of (per_day_totals, monthly_project_totals) \<Rightarrow>
        distinct (map fst per_day_totals) \<and>
        distinct (map fst monthly_project_totals) \<and>
        (\<forall>d projects. map_of per_day_totals d = Some projects \<longrightarrow> distinct (map fst projects)) \<and>
        (\<forall>p. day_project_sum per_day_totals p = dict_get monthly_project_totals p 0) \<and>
        (\<forall>p. map_of monthly_project_totals p \<noteq> None \<longleftrightarrow>
              (\<exists>d projects. map_of per_day_totals d = Some projects \<and> map_of projects p \<noteq> None)))"

section \<open>A small ledger for examples\<close>

text \<open>
  Two closed sessions on 2024-03-01 (two hours of alpha from 09:00, 45 minutes of beta
  from 11:00), a session that is still running, and an entry whose start is not a
  timestamp.
\<close>

definition entry_alpha :: entry where
  "entry_alpha = [''project'' \<mapsto> JStr ''alpha'',
                  ''start'' \<mapsto> JStr ''2024-03-01T09:00:00'',
                  ''end'' \<mapsto> JStr ''2024-03-01T11:00:00'']"

definition entry_beta :: entry where
  "entry_beta = [''project'' \<mapsto> JStr ''beta'',
                 ''start'' \<mapsto> JStr ''2024-03-01T11:00:00'',
                 ''end'' \<mapsto> JStr ''2024-03-01T11:45:00'']"

definition entry_running :: entry where
  "entry_running = [''project'' \<mapsto> JStr ''alpha'',
                    ''start'' \<mapsto> JStr ''2024-03-01T09:00:00'',
                    ''end'' \<mapsto> JNull]"

definition entry_garbled :: entry where
  "entry_garbled = [''project'' \<mapsto> JStr ''alpha'',
                    ''start'' \<mapsto> JStr ''yesterday'',
                    ''end'' \<mapsto> JStr ''2024-03-01T11:00:00'']"

definition entry_no_start :: entry where
  "entry_no_start = [''project'' \<mapsto> JStr ''alpha'', ''end'' \<mapsto> JStr ''2024-03-01T11:00:00'']"

section \<open>The totals as mappings\<close>

text \<open>
  The order of the keys of a dictionary is the order of their insertion, so two runs over
  the same entries in different orders build different lists. What the report reads from
  the dictionaries is the mapping: \<open>totals_view\<close> forgets the order, and \<open>view_add\<close> is
  the effect on the mappings of adding one segment.
\<close>

type_synonym view = "(string \<Rightarrow> (jval \<rightharpoonup> timedelta) option) \<times> (jval \<rightharpoonup> timedelta)"

definition totals_view :: "totals \<Rightarrow> view" where
  "totals_view st = (day_view (fst st), map_of (snd st))"

definition bump :: "jval \<Rightarrow> timedelta \<Rightarrow> (jval \<rightharpoonup> timedelta) \<Rightarrow> (jval \<rightharpoonup> timedelta)" where
  \<comment> \<open>\<^verbatim>\<open>m[p] = m.get(p, timedelta()) + dur\<close> on a mapping\<close>
  "bump p dur m = m(p \<mapsto> (case m p of None \<Rightarrow> 0 | Some v \<Rightarrow> v) + dur)"

definition view_add :: "string \<times> jval \<times> timedelta \<Rightarrow> view \<Rightarrow> view" where
  "view_add item v =
     (case item of (k, p, dur) \<Rightarrow>
        (case v of (days, months) \<Rightarrow>
           (days(k \<mapsto> bump p dur (case days k of None \<Rightarrow> Map.empty | Some m \<Rightarrow> m)),
            bump p dur months)))"

definition entry_items ::
  "(string \<Rightarrow> error + datetime) \<Rightarrow> datetime \<Rightarrow> datetime \<Rightarrow> datetime \<Rightarrow> entry
     \<Rightarrow> (string \<times> jval \<times> timedelta) list" where
  \<comment> \<open>day key, project and duration of each segment of an entry that raises no error\<close>
  "entry_items parse now month_start month_end e =
     (case entry_segments parse now month_start month_end e of
        Inl err \<Rightarrow> []
      | Inr segs \<Rightarrow>
          map (\<lambda>seg. (day_key_of (fst seg), entry_project e, seg_duration seg)) segs)"

definition grouped :: "(date \<Rightarrow> 'k) \<Rightarrow> date list \<Rightarrow> ('k \<times> date list) list \<Rightarrow> bool" where
  \<comment> \<open>\<open>weeks\<close> groups \<open>days\<close> by \<open>key\<close>: one bucket for each key that occurs, holding the
      days of that key in the order of \<open>days\<close>, the buckets in the order of their first days\<close>
  "grouped key days weeks \<longleftrightarrow>
     distinct (map fst weeks) \<and>
     key ` set days \<subseteq> fst ` set weeks \<and>
     (\<forall>k b. (k, b) \<in> set weeks \<longrightarrow> b \<noteq> [] \<and> b = filter (\<lambda>d. key d = k) days) \<and>
     sorted_wrt (<) (map (hd \<circ> snd) weeks)"

section \<open>Test vectors of the duration parser\<close>

lemmas parse_duration_eval =
  parse_duration_def strip_def lower_def lower_char_def isspace_def isdigit_def
  int_of_str_def MAX_STR_DIGITS_def digits_val_def digit_val_def timedelta_minutes_def
  timedelta_us_def
  US_PER_MINUTE_def US_PER_DAY_def

lemmas cmd_log_eval =
  cmd_log_duration_def str_isdigit_def frac_digits_def timedelta_hours_decimal_def
  round_half_even_def US_PER_HOUR_def

text \<open>
  Claim C6. \<^verbatim>\<open>parse_duration\<close> returns 90 minutes on \<^verbatim>\<open>"1h30m"\<close>, 45 minutes on
  \<^verbatim>\<open>"45m"\<close> and 90 minutes on \<^verbatim>\<open>"90"\<close>; it raises on \<^verbatim>\<open>"3.5"\<close>, while the
  plain-hours path of \<^verbatim>\<open>cmd_log\<close> takes \<^verbatim>\<open>"3.5"\<close> as 210 minutes; it raises on
  \<^verbatim>\<open>"0"\<close>, \<^verbatim>\<open>"h30m"\<close> and \<^verbatim>\<open>"1x"\<close>.
\<close>

theorem parse_duration_vectors:
  "parse_duration ''1h30m'' = Inr (90 * US_PER_MINUTE) \<and>
   parse_duration ''45m'' = Inr (45 * US_PER_MINUTE) \<and>
   parse_duration ''90'' = Inr (90 * US_PER_MINUTE) \<and>
   parse_duration ''3.5'' = Inl (ValueError ''Unsupported character in duration: .'') \<and>
   cmd_log_duration ''3.5'' = Inr (210 * US_PER_MINUTE) \<and>
   parse_duration ''0'' = Inl (ValueError ''Duration must be > 0'') \<and>
   parse_duration ''h30m'' = Inl (ValueError ''Missing number before unit'') \<and>
   parse_duration ''1x'' = Inl (ValueError ''Unsupported character in duration: x'')"
  by (simp add: parse_duration_eval cmd_log_eval)

section \<open>Digit runs around a unit or a colon\<close>

lemma isdigit_cases:
  "isdigit c \<Longrightarrow>
     \<not> isspace c \<and> lower_char c = c \<and> c \<noteq> CHR ''h'' \<and> c \<noteq> CHR ''m'' \<and> c \<noteq> CHR '':''"
  unfolding isdigit_def isspace_def lower_char_def by (elim disjE | simp)+

lemma strip_id:
  assumes "s \<noteq> []" "\<not> isspace (hd s)" "\<not> isspace (last s)"
  shows "strip s = s"
proof -
  have lead: "dropWhile isspace s = s" using assms by (cases s) auto
  have trail: "dropWhile isspace (rev s) = rev s" using assms by (cases s rule: rev_cases) auto
  show ?thesis by (simp add: strip_def lead trail)
qed

lemma lower_digits: "list_all isdigit d \<Longrightarrow> map lower_char d = d"
  by (induction d) (simp_all add: isdigit_cases)

lemma scan_digits: "list_all isdigit d \<Longrightarrow> scan (d @ r) tot num u = scan r tot (num @ d) u"
  by (induction d arbitrary: num) simp_all

lemma sep_not_space: "\<not> isspace CHR ''h''" "\<not> isspace CHR '':''"
  by (simp_all add: isspace_def)

lemma sep_lower: "lower_char CHR ''h'' = CHR ''h''" "lower_char CHR '':'' = CHR '':''"
  by (simp_all add: lower_char_def)

lemma sep_not_digit: "\<not> isdigit CHR ''h''" "\<not> isdigit CHR '':''"
  by (simp_all add: isdigit_def)

lemma norm_digits_sep:
  assumes "d1 \<noteq> []" "list_all isdigit d1" "list_all isdigit d2"
    and "\<not> isspace c" "lower_char c = c"
  shows "lower (strip (d1 @ c # d2)) = d1 @ c # d2"
proof -
  let ?s = "d1 @ c # d2"
  have h: "\<not> isspace (hd ?s)" using assms by (cases d1) (simp_all add: isdigit_cases)
  have l: "\<not> isspace (last ?s)" using assms
    by (cases d2 rule: rev_cases) (simp_all add: isdigit_cases)
  have st: "strip ?s = ?s" using h l by (intro strip_id) simp_all
  show ?thesis using assms by (simp add: st lower_def lower_digits)
qed

lemma scan_hour_then_digits:
  assumes "d1 \<noteq> []" "list_all isdigit d1" "list_all isdigit d2"
  shows "scan (d1 @ CHR ''h'' # d2) 0 [] False =
           (case int_of_str d1 of
              Inl e \<Rightarrow> Inl e
            | Inr n \<Rightarrow> Inr (n * 60, d2, True))"
proof -
  have start: "scan (d1 @ CHR ''h'' # d2) 0 [] False = scan (CHR ''h'' # d2) 0 d1 False"
    using assms scan_digits[of d1 "CHR ''h'' # d2" 0 "[]" False] by simp
  show ?thesis
  proof (cases "int_of_str d1")
    case (Inl e)
    with assms(1) show ?thesis by (simp add: start sep_not_digit)
  next
    case (Inr n)
    with assms(1) have "scan (CHR ''h'' # d2) 0 d1 False = scan (d2 @ []) (n * 60) [] True"
      by (simp add: sep_not_digit)
    also have "\<dots> = Inr (n * 60, d2, True)"
      using assms(3) by (simp only: scan_digits scan.simps append_Nil)
    finally show ?thesis by (simp add: start Inr)
  qed
qed

lemma scan_colon_between_digits:
  assumes "list_all isdigit d1" "list_all isdigit d2"
  shows "scan (d1 @ CHR '':'' # d2) 0 [] False = Inr (0, d1 @ d2, False)"
proof -
  have "scan (d1 @ CHR '':'' # d2) 0 [] False = scan (CHR '':'' # d2) 0 d1 False"
    using assms scan_digits[of d1 "CHR '':'' # d2" 0 "[]" False] by simp
  also have "\<dots> = scan (d2 @ []) 0 d1 False"
    by (simp add: sep_not_digit)
  also have "\<dots> = Inr (0, d1 @ d2, False)"
    using assms by (simp only: scan_digits scan.simps)
  finally show ?thesis .
qed

text \<open>
  Claim C7, as amended. When a run of bare digits follows an hour unit at the end of the
  text, as in \<^verbatim>\<open>"1h90"\<close>, \<^verbatim>\<open>had_unit\<close> is already set, so the run is not added:
  the result is that of the text without the run, the hours alone (60 minutes for
  \<^verbatim>\<open>"1h90"\<close>). The hours are read by \<^verbatim>\<open>int\<close>, which raises on a run of more than
  4300 digits; the trailing run is never converted.
\<close>

theorem parse_duration_trailing_digits_ignored:
  assumes "d1 \<noteq> []" "list_all isdigit d1" "list_all isdigit d2"
  shows "parse_duration (d1 @ ''h'' @ d2) = parse_duration (d1 @ ''h'') \<and>
         parse_duration (d1 @ ''h'' @ d2) =
           (case int_of_str d1 of
              Inl e \<Rightarrow> Inl e
            | Inr n \<Rightarrow>
                if n * 60 \<le> 0 then Inl (ValueError ''Duration must be > 0'')
                else timedelta_minutes (n * 60))"
proof -
  have val: "parse_duration (d1 @ CHR ''h'' # d) =
           (case int_of_str d1 of
              Inl e \<Rightarrow> Inl e
            | Inr n \<Rightarrow>
                if n * 60 \<le> 0 then Inl (ValueError ''Duration must be > 0'')
                else timedelta_minutes (n * 60))" if "list_all isdigit d" for d
  proof -
    have n: "lower (strip (d1 @ CHR ''h'' # d)) = d1 @ CHR ''h'' # d"
      by (rule norm_digits_sep[OF assms(1,2) that sep_not_space(1) sep_lower(1)])
    show ?thesis
      by (simp add: parse_duration_def n scan_hour_then_digits[OF assms(1,2) that]
          split: sum.splits)
  qed
  show ?thesis using val[OF assms(3)] val[of "[]"] by simp
qed

theorem parse_duration_trailing_digits_ignored_witness:
  "''1'' \<noteq> [] \<and> list_all isdigit ''1'' \<and> list_all isdigit ''90'' \<and>
   parse_duration ''1h90'' = parse_duration ''1h'' \<and>
   parse_duration ''1h90'' = Inr (60 * US_PER_MINUTE)"
proof -
  have d: "''1'' \<noteq> []" "list_all isdigit ''1''" "list_all isdigit ''90''"
    by (simp_all add: isdigit_def)
  have v: "int_of_str ''1'' = Inr 1"
    by (simp add: int_of_str_def MAX_STR_DIGITS_def digits_val_def digit_val_def)
  have m: "timedelta_minutes 60 = Inr (60 * US_PER_MINUTE)"
    by (simp add: timedelta_minutes_def timedelta_us_def US_PER_MINUTE_def US_PER_DAY_def)
  note t = parse_duration_trailing_digits_ignored[OF d]
  have a: "parse_duration ''1h90'' = parse_duration ''1h''"
    using conjunct1[OF t] by simp
  have b: "parse_duration ''1h90'' = Inr (60 * US_PER_MINUTE)"
    using conjunct2[OF t] by (simp add: v m)
  from d a b show ?thesis by (intro conjI)
qed

text \<open>
  Claim C7, as stated, fails: \<^verbatim>\<open>parse_duration("1h90")\<close> is not 150 minutes.
\<close>

theorem parse_duration_1h90_counterexample:
  "parse_duration ''1h90'' \<noteq> Inr (150 * US_PER_MINUTE)"
  by (simp add: parse_duration_eval)

text \<open>
  Claim C10. For two runs of digits with a colon between them and no unit, the colon is
  skipped while \<^verbatim>\<open>num\<close> keeps growing, so the two runs are read as one number of
  minutes, subject to the final check that the total is positive: \<^verbatim>\<open>"12:30"\<close> is
  1230 minutes, not 12 hours 30 minutes. The one number is read by \<^verbatim>\<open>int\<close>, which
  raises when the two runs have more than 4300 digits together.
\<close>

theorem parse_duration_colon_concatenates:
  assumes "d1 \<noteq> []" "d2 \<noteq> []" "list_all isdigit d1" "list_all isdigit d2"
  shows "parse_duration (d1 @ '':'' @ d2) =
           (case int_of_str (d1 @ d2) of
              Inl e \<Rightarrow> Inl e
            | Inr n \<Rightarrow>
                if n \<le> 0 then Inl (ValueError ''Duration must be > 0'')
                else timedelta_minutes n)"
proof -
  have n: "lower (strip (d1 @ CHR '':'' # d2)) = d1 @ CHR '':'' # d2"
    by (rule norm_digits_sep[OF assms(1,3,4) sep_not_space(2) sep_lower(2)])
  show ?thesis
    using assms
    by (simp add: parse_duration_def n scan_colon_between_digits[OF assms(3,4)]
        split: sum.splits)
qed

theorem parse_duration_colon_concatenates_witness:
  "''12'' \<noteq> [] \<and> ''30'' \<noteq> [] \<and> list_all isdigit ''12'' \<and> list_all isdigit ''30'' \<and>
   parse_duration ''12:30'' = Inr (1230 * US_PER_MINUTE) \<and>
   parse_duration ''12:30'' \<noteq> Inr ((12 * 60 + 30) * US_PER_MINUTE)"
proof -
  have d: "''12'' \<noteq> []" "''30'' \<noteq> []" "list_all isdigit ''12''" "list_all isdigit ''30''"
    by (simp_all add: isdigit_def)
  have v: "int_of_str ''1230'' = Inr 1230"
    by (simp add: int_of_str_def MAX_STR_DIGITS_def digits_val_def digit_val_def)
  show ?thesis
    using d parse_duration_colon_concatenates[OF d]
    by (simp add: v timedelta_minutes_def timedelta_us_def US_PER_MINUTE_def US_PER_DAY_def)
qed

section \<open>Midnights and the splitting loop\<close>

lemma US_PER_DAY_pos: "0 < US_PER_DAY" by (simp add: US_PER_DAY_def)

lemma toordinal_midnight: "toordinal (midnight d) = d"
  by (simp add: toordinal_def midnight_def US_PER_DAY_def)

lemma midnight_le: "midnight (toordinal t) \<le> t"
proof -
  have "t div US_PER_DAY * US_PER_DAY = t - t mod US_PER_DAY"
    by (simp add: minus_mod_eq_div_mult)
  moreover have "0 \<le> t mod US_PER_DAY" using US_PER_DAY_pos by simp
  ultimately show ?thesis by (simp add: toordinal_def midnight_def)
qed

lemma lt_next_midnight: "t < midnight (toordinal t + 1)"
proof -
  have "t = toordinal t * US_PER_DAY + t mod US_PER_DAY"
    by (simp add: toordinal_def)
  moreover have "t mod US_PER_DAY < US_PER_DAY"
    using US_PER_DAY_pos by simp
  ultimately show ?thesis by (simp add: midnight_def algebra_simps)
qed

lemma midnight_mono: "d \<le> d' \<Longrightarrow> midnight d \<le> midnight d'"
  using US_PER_DAY_pos by (simp add: midnight_def)

lemma midnight_strict_mono: "d < d' \<Longrightarrow> midnight d < midnight d'"
  using US_PER_DAY_pos by (simp add: midnight_def)

lemma toordinal_mono: "a \<le> b \<Longrightarrow> toordinal a \<le> toordinal b"
  using US_PER_DAY_pos by (simp add: toordinal_def zdiv_mono1)

lemma toordinal_lt_iff: "toordinal t < d \<longleftrightarrow> t < midnight d"
proof
  assume "toordinal t < d"
  then have "toordinal t + 1 \<le> d" by simp
  from midnight_mono[OF this] lt_next_midnight[of t] show "t < midnight d" by simp
next
  assume "t < midnight d"
  with midnight_le[of t] have "midnight (toordinal t) < midnight d" by simp
  then show "toordinal t < d"
    using midnight_mono[of d "toordinal t"] by (cases "toordinal t < d") auto
qed

lemma day_span_eq:
  "day_span t = (if 0 \<le> toordinal t \<and> toordinal t < MAXORDINAL
                 then Inr (midnight (toordinal t + 1)) else Inl OverflowError)"
proof -
  have "US_PER_DAY \<noteq> 0" using US_PER_DAY_pos by simp
  then have "toordinal (t + US_PER_DAY) = toordinal t + 1"
    unfolding toordinal_def by (rule div_add_self2)
  then show ?thesis
    unfolding day_span_def datetime_add_def replace_midnight_def Let_def toordinal_def[symmetric]
    by simp
qed

lemma day_segments_stop: "\<not> cs < ce \<Longrightarrow> day_segments cs ce = Inr []"
  by (subst day_segments.simps) simp

lemma day_segments_raise:
  "cs < ce \<Longrightarrow> day_span cs = Inl e \<Longrightarrow> day_segments cs ce = Inl e"
  by (subst day_segments.simps) simp

lemma day_segments_step:
  "cs < ce \<Longrightarrow> day_span cs = Inr nm \<Longrightarrow>
   day_segments cs ce =
     (case day_segments (min ce nm) ce of
        Inl e \<Rightarrow> Inl e | Inr segs \<Rightarrow> Inr ((cs, min ce nm) # segs))"
  by (subst day_segments.simps) simp

lemma day_segments_Inr_cases:
  assumes "day_segments cs ce = Inr segs" "cs < ce"
  obtains nm rest where "day_span cs = Inr nm" "day_segments (min ce nm) ce = Inr rest"
    "segs = (cs, min ce nm) # rest"
proof (cases "day_span cs")
  case (Inl e)
  with assms show ?thesis by (simp add: day_segments_raise)
next
  case (Inr nm)
  with assms that show ?thesis
    by (simp add: day_segments_step split: sum.splits)
qed

lemma day_span_gt: "day_span cs = Inr nm \<Longrightarrow> cs < nm"
  using lt_next_midnight[of cs] by (simp add: day_span_eq split: if_splits)

lemma seg_duration_pair: "seg_duration (a, b) = b - a"
  by (simp add: seg_duration_def)

lemma day_segments_sum:
  "day_segments cs ce = Inr segs \<Longrightarrow> cs \<le> ce \<Longrightarrow> sum_list (map seg_duration segs) = ce - cs"
proof (induction cs ce arbitrary: segs rule: day_segments.induct)
  case (1 cs ce)
  show ?case
  proof (cases "cs < ce")
    case False
    with "1.prems" show ?thesis by (simp add: day_segments_stop)
  next
    case True
    from "1.prems"(1) True obtain nm rest where
      ds: "day_span cs = Inr nm" and
      rec: "day_segments (min ce nm) ce = Inr rest" and
      segs: "segs = (cs, min ce nm) # rest"
      by (rule day_segments_Inr_cases)
    have "sum_list (map seg_duration rest) = ce - min ce nm"
      using "1.IH"[OF True ds rec] by simp
    then show ?thesis by (simp add: segs seg_duration_pair)
  qed
qed

lemma day_segments_contiguous:
  "day_segments cs ce = Inr segs \<Longrightarrow> cs \<le> ce \<Longrightarrow> contiguous cs segs ce"
proof (induction cs ce arbitrary: segs rule: day_segments.induct)
  case (1 cs ce)
  show ?case
  proof (cases "cs < ce")
    case False
    with "1.prems" show ?thesis by (simp add: day_segments_stop)
  next
    case True
    from "1.prems"(1) True obtain nm rest where
      ds: "day_span cs = Inr nm" and
      rec: "day_segments (min ce nm) ce = Inr rest" and
      segs: "segs = (cs, min ce nm) # rest"
      by (rule day_segments_Inr_cases)
    have "contiguous (min ce nm) rest ce"
      using "1.IH"[OF True ds rec] by simp
    then show ?thesis by (simp add: segs)
  qed
qed

lemma day_segments_each:
  "day_segments cs ce = Inr segs \<Longrightarrow> seg \<in> set segs \<Longrightarrow>
     0 < seg_duration seg \<and> one_day seg \<and> cs \<le> fst seg \<and> snd seg \<le> ce"
proof (induction cs ce arbitrary: segs rule: day_segments.induct)
  case (1 cs ce)
  show ?case
  proof (cases "cs < ce")
    case False
    with "1.prems" show ?thesis by (simp add: day_segments_stop)
  next
    case True
    from "1.prems"(1) True obtain nm rest where
      ds: "day_span cs = Inr nm" and
      rec: "day_segments (min ce nm) ce = Inr rest" and
      segs: "segs = (cs, min ce nm) # rest"
      by (rule day_segments_Inr_cases)
    have nm: "nm = midnight (toordinal cs + 1)"
      using ds by (simp add: day_span_eq split: if_splits)
    have gt: "cs < nm" using ds by (rule day_span_gt)
    show ?thesis
    proof (cases "seg = (cs, min ce nm)")
      case True
      with gt \<open>cs < ce\<close> show ?thesis by (simp add: seg_duration_pair one_day_def nm)
    next
      case False
      with "1.prems"(2) segs have "seg \<in> set rest" by simp
      from "1.IH"[OF True ds rec this] gt \<open>cs < ce\<close> show ?thesis by auto
    qed
  qed
qed

lemma day_segments_returns:
  "0 \<le> toordinal cs \<Longrightarrow> ce \<le> midnight MAXORDINAL \<Longrightarrow> \<exists>segs. day_segments cs ce = Inr segs"
proof (induction cs ce rule: day_segments.induct)
  case (1 cs ce)
  show ?case
  proof (cases "cs < ce")
    case False
    then show ?thesis by (simp add: day_segments_stop)
  next
    case True
    with "1.prems"(2) have "cs < midnight MAXORDINAL" by simp
    then have "toordinal cs < MAXORDINAL" by (simp add: toordinal_lt_iff)
    with "1.prems"(1) have ds: "day_span cs = Inr (midnight (toordinal cs + 1))"
      by (simp add: day_span_eq)
    let ?nm = "midnight (toordinal cs + 1)"
    have "cs \<le> min ce ?nm" using True lt_next_midnight[of cs] by simp
    from toordinal_mono[OF this] "1.prems"(1) have "0 \<le> toordinal (min ce ?nm)" by simp
    from "1.IH"[OF True ds this "1.prems"(2)] obtain rest where
      "day_segments (min ce ?nm) ce = Inr rest" by blast
    then show ?thesis using True ds by (simp add: day_segments_step)
  qed
qed

lemma split_loop_segments:
  "split_loop proj cs ce st =
     (case day_segments cs ce of
        Inl e \<Rightarrow> Inl e
      | Inr segs \<Rightarrow> Inr (foldl (add_seg proj) st segs))"
proof (induction proj cs ce st rule: split_loop.induct)
  case (1 proj cs ce st)
  show ?case
  proof (cases "cs < ce")
    case False
    then show ?thesis
      by (subst split_loop.simps) (simp add: day_segments_stop)
  next
    case True
    show ?thesis
    proof (cases "day_span cs")
      case (Inl e)
      with True show ?thesis
        by (subst split_loop.simps) (simp add: day_segments_raise)
    next
      case (Inr nm)
      have "split_loop proj cs ce st =
            split_loop proj (min ce nm) ce
              (add_segment st (day_key_of cs) proj (min ce nm - cs))"
        using True Inr by (subst split_loop.simps) simp
      also have "\<dots> = (case day_segments (min ce nm) ce of
                          Inl e \<Rightarrow> Inl e
                        | Inr segs \<Rightarrow> Inr (foldl (add_seg proj)
                            (add_segment st (day_key_of cs) proj (min ce nm - cs)) segs))"
        by (rule "1.IH"[OF True Inr])
      also have "\<dots> = (case day_segments cs ce of
                          Inl e \<Rightarrow> Inl e
                        | Inr segs \<Rightarrow> Inr (foldl (add_seg proj) st segs))"
        using True Inr
        by (simp add: day_segments_step add_seg_def seg_duration_pair split: sum.splits)
      finally show ?thesis .
    qed
  qed
qed

lemma day_segments_unfold:
  "day_segments cs ce =
     (if cs < ce then
        (if 0 \<le> toordinal cs \<and> toordinal cs < MAXORDINAL then
           (case day_segments (min ce (midnight (toordinal cs + 1))) ce of
              Inl e \<Rightarrow> Inl e
            | Inr segs \<Rightarrow> Inr ((cs, min ce (midnight (toordinal cs + 1))) # segs))
         else Inl OverflowError)
      else Inr [])"
  by (subst day_segments.simps) (simp add: day_span_eq)

lemmas time_eval = datetime_hms_def midnight_def toordinal_def US_PER_DAY_def US_PER_HOUR_def
  US_PER_MINUTE_def US_PER_SECOND_def MAXORDINAL_def

lemmas cal_eval = ord2ymd_def ymd2ord_def days_before_year_def days_before_month_def
  days_in_month_def is_leap_def DAYS_IN_MONTH_def DAYS_BEFORE_MONTH_def DI400Y_def DI100Y_def
  DI4Y_def Let_def

lemma date_isoformat_march_2024:
  "date_isoformat 738946 = ''2024-03-01''"
  "date_isoformat 738955 = ''2024-03-10''"
  "date_isoformat 738956 = ''2024-03-11''"
  by code_simp+

lemma ymd2ord_march_2024:
  "ymd2ord 2024 3 1 = 738946" "ymd2ord 2024 3 11 = 738956" "ymd2ord 2024 3 31 = 738976"
  by (simp_all add: cal_eval)

section \<open>Clamping and the split-sum invariant\<close>

lemma march_2024:
  "datetime_hms 2024 3 10 23 30 0 = 63845796600000000"
  "datetime_hms 2024 3 11 1 0 0 = 63845802000000000"
  "datetime_hms 2024 3 1 0 0 0 = 63844934400000000"
  "datetime_hms 2024 4 1 0 0 0 = 63847612800000000"
  "datetime_hms 2024 2 10 9 0 0 = 63843238800000000"
  "datetime_hms 2024 2 10 10 0 0 = 63843242400000000"
  "midnight (ymd2ord 2024 3 11) = 63845798400000000"
  by (simp_all add: time_eval cal_eval)

lemma one_day_same_date:
  assumes "one_day seg" "fst seg \<le> t" "t < snd seg"
  shows "toordinal t = toordinal (fst seg)"
proof -
  from assms have "t < midnight (toordinal (fst seg) + 1)" by (simp add: one_day_def)
  then have "toordinal t < toordinal (fst seg) + 1"
    using toordinal_lt_iff[of t "toordinal (fst seg) + 1"] by blast
  moreover have "toordinal (fst seg) \<le> toordinal t" using assms(2) by (rule toordinal_mono)
  ultimately show ?thesis by simp
qed

lemma clamp_interval_Some:
  "clamp_interval a b lo hi = Some (cs, ce) \<longleftrightarrow> cs = max a lo \<and> ce = min b hi \<and> cs < ce"
  unfolding clamp_interval_def Let_def by (cases "min b hi \<le> max a lo") auto

text \<open>
  Claim C3. The end of an interval is its parsed end when the entry has one and \<open>now\<close>
  otherwise. For an interval from \<open>start\<close> to that effective end \<open>eff\<close> and the window
  from \<open>lo\<close> to \<open>hi\<close>, clamping returns the pair of \<open>max start lo\<close> and
  \<open>min eff hi\<close> when the second is greater than the first and nothing otherwise; an
  interval that ends at or before \<open>lo\<close>, or starts at or after \<open>hi\<close>, has no overlap
  and no segments.
\<close>

theorem clamp_interval_overlap:
  "effective_end parse now end_s = (if truthy end_s then parse (str_of end_s) else Inr now) \<and>
   clamp_interval start eff lo hi =
     (if max start lo < min eff hi then Some (max start lo, min eff hi) else None) \<and>
   (eff \<le> lo \<or> hi \<le> start \<longrightarrow>
      clamp_interval start eff lo hi = None \<and> interval_segments start eff lo hi = Inr [])"
  by (auto simp: effective_end_def clamp_interval_def interval_segments_def Let_def)

text \<open>
  Claim C2. For a clamped interval from \<open>cs\<close> to \<open>ce\<close> the splitting loop returns a
  finite list of segments that run from \<open>cs\<close> to \<open>ce\<close> in time order, each starting
  where the last one ended; their durations add up to \<open>ce - cs\<close>; every duration is
  positive; and every instant of a segment has the date of the segment's start, so no
  segment spans two calendar days. The two side conditions say that \<open>cs\<close> is a
  \<^verbatim>\<open>datetime\<close> and that the interval ends no later than the last midnight the
  library can represent, as every interval clamped to a month window does
  (\<open>month_window_clamp\<close>); beyond it \<^verbatim>\<open>day_span\<close> raises \<^verbatim>\<open>OverflowError\<close>.
\<close>

theorem day_split_sum_invariant:
  assumes "clamp_interval a b lo hi = Some (cs, ce)"
    and "1 \<le> toordinal cs" and "ce \<le> midnight MAXORDINAL"
  shows "cs < ce \<and>
    (\<exists>segs. interval_segments a b lo hi = Inr segs \<and>
       contiguous cs segs ce \<and>
       sum_list (map seg_duration segs) = ce - cs \<and>
       (\<forall>seg\<in>set segs. 0 < seg_duration seg \<and>
          (\<forall>t. fst seg \<le> t \<and> t < snd seg \<longrightarrow> toordinal t = toordinal (fst seg))))"
proof -
  from assms(1) have lt: "cs < ce" using clamp_interval_Some by blast
  from assms(2) have "0 \<le> toordinal cs" by simp
  from day_segments_returns[OF this assms(3)] obtain segs where
    segs: "day_segments cs ce = Inr segs" by blast
  have le: "cs \<le> ce" using lt by simp
  have "interval_segments a b lo hi = Inr segs"
    using assms(1) segs by (simp add: interval_segments_def)
  moreover have "contiguous cs segs ce" using segs le by (rule day_segments_contiguous)
  moreover have "sum_list (map seg_duration segs) = ce - cs" using segs le by (rule day_segments_sum)
  moreover have "\<forall>seg\<in>set segs. 0 < seg_duration seg \<and>
          (\<forall>t. fst seg \<le> t \<and> t < snd seg \<longrightarrow> toordinal t = toordinal (fst seg))"
    using day_segments_each[OF segs] one_day_same_date by blast
  ultimately show ?thesis using lt by blast
qed

theorem clamp_interval_overlap_witness:
  "(datetime_hms 2024 2 10 10 0 0 \<le> datetime_hms 2024 3 1 0 0 0
      \<or> datetime_hms 2024 4 1 0 0 0 \<le> datetime_hms 2024 2 10 9 0 0) \<and>
   clamp_interval (datetime_hms 2024 2 10 9 0 0) (datetime_hms 2024 2 10 10 0 0)
     (datetime_hms 2024 3 1 0 0 0) (datetime_hms 2024 4 1 0 0 0) = None \<and>
   interval_segments (datetime_hms 2024 2 10 9 0 0) (datetime_hms 2024 2 10 10 0 0)
     (datetime_hms 2024 3 1 0 0 0) (datetime_hms 2024 4 1 0 0 0) = Inr []"
proof -
  have before: "datetime_hms 2024 2 10 10 0 0 \<le> datetime_hms 2024 3 1 0 0 0"
    by (simp add: march_2024)
  from before
    clamp_interval_overlap[where parse = fromisoformat_seconds and now = 0 and end_s = None
      and start = "datetime_hms 2024 2 10 9 0 0" and eff = "datetime_hms 2024 2 10 10 0 0"
      and lo = "datetime_hms 2024 3 1 0 0 0" and hi = "datetime_hms 2024 4 1 0 0 0"]
  show ?thesis by blast
qed

theorem day_split_sum_invariant_witness:
  "clamp_interval (datetime_hms 2024 3 10 23 30 0) (datetime_hms 2024 3 11 1 0 0)
     (datetime_hms 2024 3 1 0 0 0) (datetime_hms 2024 4 1 0 0 0)
     = Some (datetime_hms 2024 3 10 23 30 0, datetime_hms 2024 3 11 1 0 0) \<and>
   1 \<le> toordinal (datetime_hms 2024 3 10 23 30 0) \<and>
   datetime_hms 2024 3 11 1 0 0 \<le> midnight MAXORDINAL \<and>
   (\<exists>segs. interval_segments (datetime_hms 2024 3 10 23 30 0) (datetime_hms 2024 3 11 1 0 0)
       (datetime_hms 2024 3 1 0 0 0) (datetime_hms 2024 4 1 0 0 0) = Inr segs \<and>
     contiguous (datetime_hms 2024 3 10 23 30 0) segs (datetime_hms 2024 3 11 1 0 0) \<and>
     sum_list (map seg_duration segs) = 90 * US_PER_MINUTE \<and>
     (\<forall>seg\<in>set segs. 0 < seg_duration seg \<and>
        (\<forall>t. fst seg \<le> t \<and> t < snd seg \<longrightarrow> toordinal t = toordinal (fst seg))))"
proof -
  have c: "clamp_interval (datetime_hms 2024 3 10 23 30 0) (datetime_hms 2024 3 11 1 0 0)
     (datetime_hms 2024 3 1 0 0 0) (datetime_hms 2024 4 1 0 0 0)
     = Some (datetime_hms 2024 3 10 23 30 0, datetime_hms 2024 3 11 1 0 0)"
    by (simp add: march_2024 clamp_interval_def)
  have v: "1 \<le> toordinal (datetime_hms 2024 3 10 23 30 0)"
    by (simp add: march_2024) (simp add: toordinal_def US_PER_DAY_def)
  have m: "datetime_hms 2024 3 11 1 0 0 \<le> midnight MAXORDINAL"
    by (simp add: march_2024) (simp add: midnight_def MAXORDINAL_def US_PER_DAY_def)
  have d: "datetime_hms 2024 3 11 1 0 0 - datetime_hms 2024 3 10 23 30 0 = 90 * US_PER_MINUTE"
    by (simp add: march_2024 US_PER_MINUTE_def)
  from day_split_sum_invariant[OF c v m] c v m show ?thesis
    unfolding d by blast
qed

section \<open>The month window lies inside the range of dates\<close>

lemma days_before_year_bounds:
  assumes "1 \<le> y" "y \<le> 9999"
  shows "0 \<le> days_before_year y" "days_before_year y \<le> 3651695"
proof -
  define z where "z = y - 1"
  have z: "0 \<le> z" "z \<le> 9998" using assms by (simp_all add: z_def)
  have a: "z div 4 \<le> 2499" "0 \<le> z div 4" using z by simp_all
  have b: "0 \<le> z div 100" "z div 100 \<le> z div 4"
    using z by (simp_all add: zdiv_mono2)
  have c: "0 \<le> z div 400" "z div 400 \<le> 24" using z by simp_all
  have e: "days_before_year y = z * 365 + z div 4 - z div 100 + z div 400"
    by (simp add: days_before_year_def z_def Let_def)
  show "0 \<le> days_before_year y" unfolding e using z a b c by simp
  have "z * 365 \<le> 9998 * 365" using z by simp
  then show "days_before_year y \<le> 3651695" unfolding e using a b c by simp
qed

lemma days_before_month_bounds:
  assumes "1 \<le> m" "m \<le> 12"
  shows "0 \<le> days_before_month y m" "days_before_month y m \<le> 335"
proof -
  from assms have "m = 1 \<or> m = 2 \<or> m = 3 \<or> m = 4 \<or> m = 5 \<or> m = 6 \<or> m = 7 \<or> m = 8
      \<or> m = 9 \<or> m = 10 \<or> m = 11 \<or> m = 12" by arith
  then show "0 \<le> days_before_month y m" "days_before_month y m \<le> 335"
    unfolding days_before_month_def DAYS_BEFORE_MONTH_def by (elim disjE; simp)+
qed

lemma first_of_month_bounds:
  assumes "datetime_new y m 1 = Inr t"
  shows "midnight 1 \<le> t" "t < midnight MAXORDINAL"
proof -
  from assms have y: "1 \<le> y" "y \<le> 9999" and m: "1 \<le> m" "m \<le> 12"
    and t: "t = midnight (ymd2ord y m 1)"
    by (simp_all add: datetime_new_def split: if_splits)
  have lo: "1 \<le> ymd2ord y m 1"
    using days_before_year_bounds(1)[OF y] days_before_month_bounds(1)[OF m, of y]
    by (simp add: ymd2ord_def)
  have hi: "ymd2ord y m 1 < MAXORDINAL"
    using days_before_year_bounds(2)[OF y] days_before_month_bounds(2)[OF m, of y]
    by (simp add: ymd2ord_def MAXORDINAL_def)
  show "midnight 1 \<le> t" unfolding t using lo by (rule midnight_mono)
  show "t < midnight MAXORDINAL" unfolding t using hi by (rule midnight_strict_mono)
qed

lemma cmd_report_window_first_days:
  assumes "cmd_report_window now = Inr (lo, hi)"
  shows "\<exists>y m. datetime_new y m 1 = Inr lo" "\<exists>y m. datetime_new y m 1 = Inr hi"
proof -
  from assms have s: "start_of_month (toordinal now) = Inr lo"
    and e: "end_of_month (toordinal now) = Inr hi"
    by (simp_all add: cmd_report_window_def Let_def split: sum.splits)
  from s show "\<exists>y m. datetime_new y m 1 = Inr lo"
    unfolding start_of_month_def by blast
  from e show "\<exists>y m. datetime_new y m 1 = Inr hi"
    unfolding end_of_month_def by (cases "month_of (toordinal now) = 12") auto
qed

lemma cmd_report_window_bounds:
  assumes "cmd_report_window now = Inr (lo, hi)"
  shows "1 \<le> toordinal lo" "hi \<le> midnight MAXORDINAL" "toordinal hi < MAXORDINAL"
proof -
  from cmd_report_window_first_days[OF assms] obtain y m y' m' where
    lo: "datetime_new y m 1 = Inr lo" and hi: "datetime_new y' m' 1 = Inr hi"
    by blast
  from first_of_month_bounds(1)[OF lo] toordinal_mono[of "midnight 1" lo]
  show "1 \<le> toordinal lo" by (simp add: toordinal_midnight)
  from first_of_month_bounds(2)[OF hi]
  show "hi \<le> midnight MAXORDINAL" "toordinal hi < MAXORDINAL"
    by (simp_all add: toordinal_lt_iff)
qed

lemma month_window_clamp:
  assumes "cmd_report_window now = Inr (lo, hi)" "clamp_interval a b lo hi = Some (cs, ce)"
  shows "1 \<le> toordinal cs" "ce \<le> midnight MAXORDINAL"
proof -
  from assms(2) have "lo \<le> cs" "ce \<le> hi" by (auto simp: clamp_interval_Some)
  with cmd_report_window_bounds[OF assms(1)] toordinal_mono[of lo cs]
  show "1 \<le> toordinal cs" "ce \<le> midnight MAXORDINAL" by simp_all
qed

section \<open>The midnight boundary\<close>

lemma day_keys_march_2024:
  "day_key_of 63845796600000000 = ''2024-03-10''"
  "day_key_of 63845798400000000 = ''2024-03-11''"
  by (simp_all add: day_key_of_def toordinal_def US_PER_DAY_def date_isoformat_march_2024)

lemma day_segments_march_2024:
  "day_segments 63845796600000000 63845802000000000 =
     Inr [(63845796600000000, 63845798400000000), (63845798400000000, 63845802000000000)]"
  by (subst day_segments_unfold, simp add: time_eval)+

lemma day_segments_from_midnight:
  assumes "0 \<le> d" "midnight d < ce" "ce \<le> midnight MAXORDINAL"
  shows "\<exists>rest. day_segments (midnight d) ce = Inr ((midnight d, min ce (midnight (d + 1))) # rest)"
proof -
  have o: "0 \<le> toordinal (midnight d)" using assms(1) by (simp add: toordinal_midnight)
  from day_segments_returns[OF o assms(3)] obtain segs where
    segs: "day_segments (midnight d) ce = Inr segs" by blast
  from segs assms(2) obtain nm rest where
    ds: "day_span (midnight d) = Inr nm" and
    eq: "segs = (midnight d, min ce nm) # rest"
    by (rule day_segments_Inr_cases)
  from ds have "nm = midnight (d + 1)"
    by (simp add: day_span_eq toordinal_midnight split: if_splits)
  with segs eq show ?thesis by simp
qed

text \<open>
  Claim C8. The interval from 2024-03-10 23:30 to 2024-03-11 01:00 is split into exactly
  two segments, and the loop adds 30 minutes under the day 2024-03-10 and 60 minutes
  under the day 2024-03-11. In general, when the loop stands at the midnight that begins
  day \<open>d\<close>, the segment it makes starts at that midnight, and the date under which it
  is added is \<open>d\<close> itself, not the day before.
\<close>

theorem midnight_boundary_split:
  "split_loop p (datetime_hms 2024 3 10 23 30 0) (datetime_hms 2024 3 11 1 0 0) ([], []) =
     Inr ([(''2024-03-10'', [(p, 30 * US_PER_MINUTE)]),
           (''2024-03-11'', [(p, 60 * US_PER_MINUTE)])],
          [(p, 90 * US_PER_MINUTE)]) \<and>
   day_segments (datetime_hms 2024 3 10 23 30 0) (datetime_hms 2024 3 11 1 0 0) =
     Inr [(datetime_hms 2024 3 10 23 30 0, midnight (ymd2ord 2024 3 11)),
          (midnight (ymd2ord 2024 3 11), datetime_hms 2024 3 11 1 0 0)] \<and>
   (1 \<le> d \<and> midnight d < ce \<and> ce \<le> midnight MAXORDINAL \<longrightarrow>
      (\<exists>rest. day_segments (midnight d) ce =
                Inr ((midnight d, min ce (midnight (d + 1))) # rest)) \<and>
      toordinal (midnight d) = d \<and>
      day_key_of (midnight d) = date_isoformat d)"
proof (intro conjI impI)
  show "split_loop p (datetime_hms 2024 3 10 23 30 0) (datetime_hms 2024 3 11 1 0 0) ([], []) =
     Inr ([(''2024-03-10'', [(p, 30 * US_PER_MINUTE)]),
           (''2024-03-11'', [(p, 60 * US_PER_MINUTE)])],
          [(p, 90 * US_PER_MINUTE)])"
    by (simp add: split_loop_segments march_2024 day_segments_march_2024 add_seg_def
        day_keys_march_2024 add_segment_def setdefault_def dict_get_def seg_duration_pair
        US_PER_MINUTE_def)
  show "day_segments (datetime_hms 2024 3 10 23 30 0) (datetime_hms 2024 3 11 1 0 0) =
     Inr [(datetime_hms 2024 3 10 23 30 0, midnight (ymd2ord 2024 3 11)),
          (midnight (ymd2ord 2024 3 11), datetime_hms 2024 3 11 1 0 0)]"
    by (simp add: march_2024 day_segments_march_2024)
next
  assume a: "1 \<le> d \<and> midnight d < ce \<and> ce \<le> midnight MAXORDINAL"
  then have "0 \<le> d" by simp
  from day_segments_from_midnight[OF this] a
  show "\<exists>rest. day_segments (midnight d) ce =
                Inr ((midnight d, min ce (midnight (d + 1))) # rest)" by blast
  show "toordinal (midnight d) = d" by (rule toordinal_midnight)
  show "day_key_of (midnight d) = date_isoformat d"
    by (simp add: day_key_of_def toordinal_midnight)
qed

theorem midnight_boundary_split_witness:
  "1 \<le> ymd2ord 2024 3 11 \<and>
   midnight (ymd2ord 2024 3 11) < datetime_hms 2024 3 11 1 0 0 \<and>
   datetime_hms 2024 3 11 1 0 0 \<le> midnight MAXORDINAL \<and>
   (\<exists>rest. day_segments (midnight (ymd2ord 2024 3 11)) (datetime_hms 2024 3 11 1 0 0) =
        Inr ((midnight (ymd2ord 2024 3 11), datetime_hms 2024 3 11 1 0 0) # rest)) \<and>
   day_key_of (midnight (ymd2ord 2024 3 11)) = ''2024-03-11''"
proof -
  have h: "1 \<le> ymd2ord 2024 3 11 \<and>
     midnight (ymd2ord 2024 3 11) < datetime_hms 2024 3 11 1 0 0 \<and>
     datetime_hms 2024 3 11 1 0 0 \<le> midnight MAXORDINAL"
    by (simp add: march_2024) (simp add: cal_eval midnight_def MAXORDINAL_def US_PER_DAY_def)
  have m: "min (datetime_hms 2024 3 11 1 0 0) (midnight (ymd2ord 2024 3 11 + 1))
             = datetime_hms 2024 3 11 1 0 0"
    by (simp add: march_2024) (simp add: cal_eval midnight_def US_PER_DAY_def)
  have k: "date_isoformat (ymd2ord 2024 3 11) = ''2024-03-11''"
    by (simp add: ymd2ord_march_2024 date_isoformat_march_2024)
  from midnight_boundary_split[where d = "ymd2ord 2024 3 11"
      and ce = "datetime_hms 2024 3 11 1 0 0" and p = JNull] h
  show ?thesis unfolding m k by blast
qed

section \<open>Daily and monthly totals agree\<close>

lemma dict_get_update: "dict_get (AList.update k v d) k' dflt = (if k' = k then v else dict_get d k' dflt)"
  by (simp add: dict_get_def update_conv')

lemma add_segment_per_day:
  "fst (add_segment (pd, mt) k p dur) =
     AList.update k (AList.update p (dict_get (dict_get pd k []) p 0 + dur) (dict_get pd k [])) pd"
proof (cases "map_of pd k")
  case None
  then have notin: "k \<notin> fst ` set pd" by (simp add: map_of_eq_None_iff)
  have g: "dict_get (pd @ [(k, [])]) k [] = []" "dict_get pd k [] = []"
    using None by (simp_all add: dict_get_def map_add_def)
  have "AList.update k v (pd @ [(k, [])]) = AList.update k v pd" for v
    using notin by (induction pd) auto
  then show ?thesis using None
    by (simp add: add_segment_def setdefault_def Let_def g)
next
  case (Some m)
  then show ?thesis by (simp add: add_segment_def setdefault_def Let_def)
qed

lemma add_segment_monthly:
  "snd (add_segment (pd, mt) k p dur) = AList.update p (dict_get mt p 0 + dur) mt"
  by (simp add: add_segment_def Let_def)

lemma sum_update:
  "sum_list (map (\<lambda>(d, m). g m) (AList.update k v pd)) =
     sum_list (map (\<lambda>(d, m). g m) pd) - (case map_of pd k of None \<Rightarrow> 0 | Some m \<Rightarrow> g m) + (g v :: int)"
  by (induction pd) auto

lemma day_project_sum_add:
  "day_project_sum (fst (add_segment (pd, mt) k p dur)) p' =
     day_project_sum pd p' + (if p' = p then dur else 0)"
proof -
  let ?inner = "dict_get pd k []"
  have "(case map_of pd k of None \<Rightarrow> 0 | Some m \<Rightarrow> dict_get m p' 0) = dict_get ?inner p' 0"
    by (simp add: dict_get_def split: option.splits)
  then show ?thesis
    unfolding add_segment_per_day day_project_sum_def
    by (simp add: sum_update[where g = "\<lambda>m. dict_get m p' 0"] dict_get_update)
qed

lemma totals_consistent_empty: "totals_consistent ([], [])"
  by (simp add: totals_consistent_def day_project_sum_def dict_get_def)

lemma totals_consistent_add_segment:
  assumes "totals_consistent st"
  shows "totals_consistent (add_segment st k p dur)"
proof -
  obtain pd mt where st: "st = (pd, mt)" by (cases st)
  let ?inner = "dict_get pd k []"
  let ?v = "AList.update p (dict_get ?inner p 0 + dur) ?inner"
  let ?pd' = "AList.update k ?v pd"
  let ?mt' = "AList.update p (dict_get mt p 0 + dur) mt"
  have res: "add_segment st k p dur = (?pd', ?mt')"
    using add_segment_per_day[of pd mt k p dur] add_segment_monthly[of pd mt k p dur]
    by (simp add: st prod_eq_iff)
  have inv: "distinct (map fst pd) \<and> distinct (map fst mt) \<and>
        (\<forall>d m. map_of pd d = Some m \<longrightarrow> distinct (map fst m)) \<and>
        (\<forall>q. day_project_sum pd q = dict_get mt q 0) \<and>
        (\<forall>q. map_of mt q \<noteq> None \<longleftrightarrow>
              (\<exists>d m. map_of pd d = Some m \<and> map_of m q \<noteq> None))"
    using assms unfolding totals_consistent_def st prod.case .
  from inv have d1: "distinct (map fst pd)" and d2: "distinct (map fst mt)"
    and d3: "\<And>d m. map_of pd d = Some m \<Longrightarrow> distinct (map fst m)"
    and sums: "\<And>q. day_project_sum pd q = dict_get mt q 0"
    and keys: "\<And>q. map_of mt q \<noteq> None \<longleftrightarrow>
              (\<exists>d m. map_of pd d = Some m \<and> map_of m q \<noteq> None)"
    by blast+
  have inner: "distinct (map fst ?inner)"
    using d3 by (cases "map_of pd k") (simp_all add: dict_get_def)
  have inner_keys: "map_of ?inner q \<noteq> None \<longleftrightarrow>
      (\<exists>m. map_of pd k = Some m \<and> map_of m q \<noteq> None)" for q
    by (cases "map_of pd k") (simp_all add: dict_get_def)
  have c1: "distinct (map fst ?pd')" using d1 by (rule distinct_update)
  have c2: "distinct (map fst ?mt')" using d2 by (rule distinct_update)
  have c3: "distinct (map fst m)" if "map_of ?pd' d = Some m" for d m
  proof (cases "d = k")
    case True
    with that have "m = ?v" by (simp add: update_conv')
    then show ?thesis using inner by (simp add: distinct_update)
  next
    case False
    with that have "map_of pd d = Some m" by (simp add: update_conv')
    then show ?thesis by (rule d3)
  qed
  have c4: "day_project_sum ?pd' q = dict_get ?mt' q 0" for q
    using day_project_sum_add[of pd mt k p dur q] sums[of q]
    by (simp add: add_segment_per_day dict_get_update)
  have c5: "map_of ?mt' q \<noteq> None \<longleftrightarrow>
      (\<exists>d m. map_of ?pd' d = Some m \<and> map_of m q \<noteq> None)" for q
  proof (cases "q = p")
    case True
    have "map_of ?pd' k = Some ?v" by (simp add: update_conv')
    moreover have "map_of ?v p \<noteq> None" by (simp add: update_conv')
    ultimately show ?thesis using True by (auto simp: update_conv')
  next
    case False
    have "(\<exists>d m. map_of ?pd' d = Some m \<and> map_of m q \<noteq> None) \<longleftrightarrow>
          (\<exists>d m. map_of pd d = Some m \<and> map_of m q \<noteq> None)"
    proof
      assume "\<exists>d m. map_of ?pd' d = Some m \<and> map_of m q \<noteq> None"
      then obtain d m where dm: "map_of ?pd' d = Some m" "map_of m q \<noteq> None" by blast
      show "\<exists>d m. map_of pd d = Some m \<and> map_of m q \<noteq> None"
      proof (cases "d = k")
        case True
        with dm have "map_of ?v q \<noteq> None" by (simp add: update_conv')
        with False have "map_of ?inner q \<noteq> None" by (simp add: update_conv')
        then show ?thesis using inner_keys by blast
      next
        case False
        with dm show ?thesis by (auto simp: update_conv')
      qed
    next
      assume "\<exists>d m. map_of pd d = Some m \<and> map_of m q \<noteq> None"
      then obtain d m where dm: "map_of pd d = Some m" "map_of m q \<noteq> None" by blast
      show "\<exists>d m. map_of ?pd' d = Some m \<and> map_of m q \<noteq> None"
      proof (cases "d = k")
        case True
        with dm have "map_of ?inner q \<noteq> None" using inner_keys by blast
        with False have "map_of ?v q \<noteq> None" by (simp add: update_conv')
        moreover have "map_of ?pd' k = Some ?v" by (simp add: update_conv')
        ultimately show ?thesis by blast
      next
        case False
        with dm have "map_of ?pd' d = Some m" by (simp add: update_conv')
        with dm show ?thesis by blast
      qed
    qed
    with keys[of q] False show ?thesis by (simp add: update_conv')
  qed
  show ?thesis
    unfolding res totals_consistent_def prod.case using c1 c2 c3 c4 c5 by blast
qed

lemma process_entry_segments:
  "process_entry parse now lo hi st e =
     (case entry_segments parse now lo hi e of
        Inl err \<Rightarrow> Inl err
      | Inr segs \<Rightarrow> Inr (foldl (add_seg (entry_project e)) st segs))"
  by (simp add: process_entry_def entry_segments_def entry_project_def interval_segments_def
      split_loop_segments Let_def split: sum.splits option.splits)

lemma totals_consistent_segments:
  "totals_consistent st \<Longrightarrow> totals_consistent (foldl (add_seg proj) st segs)"
  by (induction segs arbitrary: st) (simp_all add: add_seg_def totals_consistent_add_segment)

lemma totals_consistent_process_entry:
  "totals_consistent st \<Longrightarrow> process_entry parse now lo hi st e = Inr st' \<Longrightarrow>
     totals_consistent st'"
  by (auto simp: process_entry_segments totals_consistent_segments split: sum.splits)

lemma totals_consistent_report_loop:
  "totals_consistent st \<Longrightarrow> report_loop parse now lo hi st data = Inr st' \<Longrightarrow>
     totals_consistent st'"
proof (induction data arbitrary: st)
  case Nil
  then show ?case by simp
next
  case (Cons e data)
  from Cons.prems(2) obtain st1 where
    one: "process_entry parse now lo hi st e = Inr st1" and
    rest: "report_loop parse now lo hi st1 data = Inr st'"
    by (auto split: sum.splits)
  from Cons.prems(1) one have "totals_consistent st1"
    by (rule totals_consistent_process_entry)
  from Cons.IH[OF this rest] show ?case .
qed

text \<open>
  Claim C4. When the aggregation of a ledger completes, the two dictionaries are
  consistent: for every project the durations listed for it under the days add up to
  its monthly total (a project that a dictionary does not list counts as zero there),
  the keys of every dictionary are unique, and a project has a monthly total exactly
  when some day lists it.
\<close>

theorem day_month_cross_check:
  assumes "aggregate parse now lo hi data = Inr (per_day_totals, monthly_project_totals)"
  shows "totals_consistent (per_day_totals, monthly_project_totals) \<and>
         (\<forall>p. day_project_sum per_day_totals p = dict_get monthly_project_totals p 0)"
proof -
  have "totals_consistent (per_day_totals, monthly_project_totals)"
    using totals_consistent_empty assms unfolding aggregate_def
    by (rule totals_consistent_report_loop)
  then show ?thesis unfolding totals_consistent_def prod.case by blast
qed

section \<open>The example ledger, evaluated\<close>

lemma parse_examples:
  "fromisoformat_seconds ''2024-03-01T09:00:00'' = Inr 63844966800000000"
  "fromisoformat_seconds ''2024-03-01T11:00:00'' = Inr 63844974000000000"
  "fromisoformat_seconds ''2024-03-01T11:45:00'' = Inr 63844976700000000"
  "fromisoformat_seconds ''yesterday'' = Inl (ValueError ''Invalid isoformat string'')"
  by (simp_all add: fromisoformat_seconds_def datetime_new_def isdigit_def
      digits_val_def digit_val_def days_in_month_def is_leap_def DAYS_IN_MONTH_def Let_def
      time_eval cal_eval)

lemma march_1_2024:
  "datetime_hms 2024 3 1 9 0 0 = 63844966800000000"
  "datetime_hms 2024 3 1 10 0 0 = 63844970400000000"
  "datetime_hms 2024 3 1 11 0 0 = 63844974000000000"
  "datetime_hms 2024 3 1 11 45 0 = 63844976700000000"
  "datetime_hms 2024 3 15 10 0 0 = 63846180000000000"
  by (simp_all add: time_eval cal_eval)

lemma day_segments_march_1_2024:
  "day_segments 63844966800000000 63844974000000000 = Inr [(63844966800000000, 63844974000000000)]"
  "day_segments 63844974000000000 63844976700000000 = Inr [(63844974000000000, 63844976700000000)]"
  "day_segments 63844966800000000 63844970400000000 = Inr [(63844966800000000, 63844970400000000)]"
  by (subst day_segments_unfold, simp add: time_eval)+

lemma day_key_march_1_2024:
  "day_key_of 63844966800000000 = ''2024-03-01''"
  "day_key_of 63844974000000000 = ''2024-03-01''"
  by (simp_all add: day_key_of_def toordinal_def US_PER_DAY_def date_isoformat_march_2024)

lemmas entry_eval = entry_segments_def entry_project_def effective_end_def truthy_def str_of_def
  interval_segments_def clamp_interval_def parse_examples march_2024 march_1_2024
  day_segments_march_1_2024

lemma entry_segments_examples:
  "entry_segments fromisoformat_seconds now (datetime_hms 2024 3 1 0 0 0) (datetime_hms 2024 4 1 0 0 0)
     entry_alpha = Inr [(63844966800000000, 63844974000000000)]"
  "entry_segments fromisoformat_seconds now (datetime_hms 2024 3 1 0 0 0) (datetime_hms 2024 4 1 0 0 0)
     entry_beta = Inr [(63844974000000000, 63844976700000000)]"
  "entry_segments fromisoformat_seconds (datetime_hms 2024 3 1 10 0 0)
     (datetime_hms 2024 3 1 0 0 0) (datetime_hms 2024 4 1 0 0 0)
     entry_running = Inr [(63844966800000000, 63844970400000000)]"
  "entry_segments fromisoformat_seconds now (datetime_hms 2024 3 1 0 0 0) (datetime_hms 2024 4 1 0 0 0)
     entry_garbled = Inl (ValueError ''Invalid isoformat string'')"
  "entry_segments fromisoformat_seconds now (datetime_hms 2024 3 1 0 0 0) (datetime_hms 2024 4 1 0 0 0)
     entry_no_start = Inr []"
  by (simp_all add: entry_eval entry_alpha_def entry_beta_def entry_running_def
      entry_garbled_def entry_no_start_def)

lemmas totals_eval = aggregate_def process_entry_segments entry_segments_examples add_seg_def
  add_segment_def setdefault_def dict_get_def seg_duration_pair day_key_march_1_2024
  entry_project_def

lemma aggregate_alpha_beta:
  "aggregate fromisoformat_seconds now (datetime_hms 2024 3 1 0 0 0) (datetime_hms 2024 4 1 0 0 0)
     [entry_alpha, entry_beta] =
   Inr ([(''2024-03-01'', [(JStr ''alpha'', 120 * US_PER_MINUTE), (JStr ''beta'', 45 * US_PER_MINUTE)])],
        [(JStr ''alpha'', 120 * US_PER_MINUTE), (JStr ''beta'', 45 * US_PER_MINUTE)])"
  by (simp add: totals_eval US_PER_MINUTE_def) (simp add: entry_alpha_def entry_beta_def)

lemma aggregate_beta_alpha:
  "aggregate fromisoformat_seconds now (datetime_hms 2024 3 1 0 0 0) (datetime_hms 2024 4 1 0 0 0)
     [entry_beta, entry_alpha] =
   Inr ([(''2024-03-01'', [(JStr ''beta'', 45 * US_PER_MINUTE), (JStr ''alpha'', 120 * US_PER_MINUTE)])],
        [(JStr ''beta'', 45 * US_PER_MINUTE), (JStr ''alpha'', 120 * US_PER_MINUTE)])"
  by (simp add: totals_eval US_PER_MINUTE_def) (simp add: entry_alpha_def entry_beta_def)

theorem day_month_cross_check_witness:
  "aggregate fromisoformat_seconds (datetime_hms 2024 3 15 10 0 0)
     (datetime_hms 2024 3 1 0 0 0) (datetime_hms 2024 4 1 0 0 0) [entry_alpha, entry_beta] =
   Inr ([(''2024-03-01'', [(JStr ''alpha'', 120 * US_PER_MINUTE), (JStr ''beta'', 45 * US_PER_MINUTE)])],
        [(JStr ''alpha'', 120 * US_PER_MINUTE), (JStr ''beta'', 45 * US_PER_MINUTE)]) \<and>
   totals_consistent
     ([(''2024-03-01'', [(JStr ''alpha'', 120 * US_PER_MINUTE), (JStr ''beta'', 45 * US_PER_MINUTE)])],
      [(JStr ''alpha'', 120 * US_PER_MINUTE), (JStr ''beta'', 45 * US_PER_MINUTE)]) \<and>
   day_project_sum
     [(''2024-03-01'', [(JStr ''alpha'', 120 * US_PER_MINUTE), (JStr ''beta'', 45 * US_PER_MINUTE)])]
     (JStr ''beta'') = 45 * US_PER_MINUTE"
proof -
  note run = aggregate_alpha_beta[of "datetime_hms 2024 3 15 10 0 0"]
  from day_month_cross_check[OF run]
  have "day_project_sum
     [(''2024-03-01'', [(JStr ''alpha'', 120 * US_PER_MINUTE), (JStr ''beta'', 45 * US_PER_MINUTE)])]
     (JStr ''beta'') = 45 * US_PER_MINUTE"
    by (simp add: dict_get_def)
  with run day_month_cross_check[OF run] show ?thesis by blast
qed

section \<open>The order of the ledger does not matter\<close>

lemma bump_commute: "bump p d (bump p' d' m) = bump p' d' (bump p d m)"
  by (auto simp: bump_def fun_eq_iff split: option.splits)

lemma view_add_commute: "view_add a (view_add b v) = view_add b (view_add a v)"
proof -
  obtain k p d where a: "a = (k, p, d)" by (cases a)
  obtain k' p' d' where b: "b = (k', p', d')" by (cases b)
  obtain days months where v: "v = (days, months)" by (cases v)
  show ?thesis
  proof (cases "k = k'")
    case True
    then show ?thesis
      by (simp add: a b v view_add_def bump_commute[of p d p' d'])
  next
    case False
    then show ?thesis
      by (simp add: a b v view_add_def bump_commute[of p d p' d' months] fun_upd_twist)
  qed
qed

lemma view_add_segment:
  "totals_view (add_segment st k p dur) = view_add (k, p, dur) (totals_view st)"
proof -
  obtain pd mt where st: "st = (pd, mt)" by (cases st)
  let ?inner = "dict_get pd k []"
  have inner: "map_of ?inner = (case day_view pd k of None \<Rightarrow> Map.empty | Some m \<Rightarrow> m)"
    by (cases "map_of pd k") (simp_all add: dict_get_def day_view_def)
  have v: "map_of (AList.update p (dict_get m p 0 + dur) m) = bump p dur (map_of m)" for m
    by (simp add: update_conv' bump_def dict_get_def)
  have upd: "day_view (AList.update k w pd) = (day_view pd)(k \<mapsto> map_of w)" for w
    by (simp add: day_view_def update_conv' fun_eq_iff)
  have days: "day_view (fst (add_segment (pd, mt) k p dur)) =
      (day_view pd)(k \<mapsto> bump p dur (case day_view pd k of None \<Rightarrow> Map.empty | Some m \<Rightarrow> m))"
    unfolding add_segment_per_day upd v inner ..
  have months: "map_of (snd (add_segment (pd, mt) k p dur)) = bump p dur (map_of mt)"
    unfolding add_segment_monthly by (rule v)
  show ?thesis
    by (simp add: st totals_view_def view_add_def days months)
qed

lemma view_fold_segments:
  "totals_view (foldl (add_seg proj) st segs) =
     fold view_add (map (\<lambda>seg. (day_key_of (fst seg), proj, seg_duration seg)) segs)
       (totals_view st)"
  by (induction segs arbitrary: st) (simp_all add: add_seg_def view_add_segment)

lemma report_loop_view:
  assumes "report_loop parse now lo hi st data = Inr st'"
  shows "totals_view st' =
           fold view_add (concat (map (entry_items parse now lo hi) data)) (totals_view st)"
    and "\<forall>e\<in>set data. \<exists>segs. entry_segments parse now lo hi e = Inr segs"
  using assms
proof (induction data arbitrary: st)
  case Nil
  {
    case 1 then show ?case by simp
  next
    case 2 then show ?case by simp
  }
next
  case (Cons e data)
  {
    case 1
    from 1 obtain st1 where
      one: "process_entry parse now lo hi st e = Inr st1" and
      rest: "report_loop parse now lo hi st1 data = Inr st'"
      by (auto split: sum.splits)
    from one obtain segs where
      segs: "entry_segments parse now lo hi e = Inr segs" and
      st1: "st1 = foldl (add_seg (entry_project e)) st segs"
      by (auto simp: process_entry_segments split: sum.splits)
    have "totals_view st1 = fold view_add (entry_items parse now lo hi e) (totals_view st)"
      by (simp add: st1 entry_items_def segs view_fold_segments)
    with Cons.IH(1)[OF rest] show ?case by simp
  next
    case 2
    from 2 obtain st1 where
      one: "process_entry parse now lo hi st e = Inr st1" and
      rest: "report_loop parse now lo hi st1 data = Inr st'"
      by (auto split: sum.splits)
    from one have "\<exists>segs. entry_segments parse now lo hi e = Inr segs"
      by (auto simp: process_entry_segments split: sum.splits)
    with Cons.IH(2)[OF rest] show ?case by simp
  }
qed

lemma report_loop_returns:
  "\<forall>e\<in>set data. \<exists>segs. entry_segments parse now lo hi e = Inr segs \<Longrightarrow>
     \<exists>st'. report_loop parse now lo hi st data = Inr st'"
proof (induction data arbitrary: st)
  case Nil
  then show ?case by simp
next
  case (Cons e data)
  then obtain segs where "entry_segments parse now lo hi e = Inr segs" by auto
  then have "process_entry parse now lo hi st e = Inr (foldl (add_seg (entry_project e)) st segs)"
    by (simp add: process_entry_segments)
  moreover from Cons obtain st' where
    "report_loop parse now lo hi (foldl (add_seg (entry_project e)) st segs) data = Inr st'"
    by fastforce
  ultimately show ?case by simp
qed

lemma items_permuted:
  assumes "mset data' = mset data"
  shows "mset (concat (map f data')) = mset (concat (map f data))"
proof -
  have "mset (concat (map f xs)) = (\<Sum>x\<in>#mset xs. mset (f x))" for xs :: "'a list"
    by (induction xs) simp_all
  then show ?thesis using assms by simp
qed

text \<open>
  Claim C5. If the aggregation of a ledger completes, then the aggregation of any
  permutation of the ledger, over the same window and at the same \<open>now\<close>, completes too,
  and it produces the same mapping from day to project to duration and the same mapping
  from project to monthly duration.
\<close>

theorem aggregate_order_irrelevant:
  assumes "mset data' = mset data"
    and "aggregate parse now lo hi data = Inr (per_day_totals, monthly_project_totals)"
  shows "\<exists>per_day_totals' monthly_project_totals'.
           aggregate parse now lo hi data' = Inr (per_day_totals', monthly_project_totals') \<and>
           day_view per_day_totals' = day_view per_day_totals \<and>
           map_of monthly_project_totals' = map_of monthly_project_totals"
proof -
  let ?items = "entry_items parse now lo hi"
  note run = assms(2)[unfolded aggregate_def]
  from report_loop_view(2)[OF run]
  have ok: "\<forall>e\<in>set data. \<exists>segs. entry_segments parse now lo hi e = Inr segs" .
  have "set data' = set data" using assms(1) by (rule mset_eq_setD)
  with ok have "\<forall>e\<in>set data'. \<exists>segs. entry_segments parse now lo hi e = Inr segs" by simp
  from report_loop_returns[OF this] obtain st' where
    run': "report_loop parse now lo hi ([], []) data' = Inr st'" by blast
  have "fold view_add (concat (map ?items data')) = fold view_add (concat (map ?items data))"
  proof (rule fold_multiset_equiv)
    show "view_add x \<circ> view_add y = view_add y \<circ> view_add x" for x y
      by (simp add: fun_eq_iff view_add_commute)
    show "mset (concat (map ?items data')) = mset (concat (map ?items data))"
      using assms(1) by (rule items_permuted)
  qed
  with report_loop_view(1)[OF run] report_loop_view(1)[OF run']
  have "totals_view st' = totals_view (per_day_totals, monthly_project_totals)" by simp
  then have "day_view (fst st') = day_view per_day_totals"
    and "map_of (snd st') = map_of monthly_project_totals"
    by (simp_all add: totals_view_def)
  with run' show ?thesis unfolding aggregate_def by (cases st') auto
qed

theorem aggregate_order_irrelevant_witness:
  "mset [entry_beta, entry_alpha] = mset [entry_alpha, entry_beta] \<and>
   aggregate fromisoformat_seconds (datetime_hms 2024 3 15 10 0 0)
     (datetime_hms 2024 3 1 0 0 0) (datetime_hms 2024 4 1 0 0 0) [entry_alpha, entry_beta] =
   Inr ([(''2024-03-01'', [(JStr ''alpha'', 120 * US_PER_MINUTE), (JStr ''beta'', 45 * US_PER_MINUTE)])],
        [(JStr ''alpha'', 120 * US_PER_MINUTE), (JStr ''beta'', 45 * US_PER_MINUTE)]) \<and>
   (\<exists>per_day_totals' monthly_project_totals'.
      aggregate fromisoformat_seconds (datetime_hms 2024 3 15 10 0 0)
        (datetime_hms 2024 3 1 0 0 0) (datetime_hms 2024 4 1 0 0 0) [entry_beta, entry_alpha] =
        Inr (per_day_totals', monthly_project_totals') \<and>
      day_view per_day_totals' =
        day_view [(''2024-03-01'',
                   [(JStr ''alpha'', 120 * US_PER_MINUTE), (JStr ''beta'', 45 * US_PER_MINUTE)])] \<and>
      map_of monthly_project_totals' =
        map_of [(JStr ''alpha'', 120 * US_PER_MINUTE), (JStr ''beta'', 45 * US_PER_MINUTE)])"
proof -
  have perm: "mset [entry_beta, entry_alpha] = mset [entry_alpha, entry_beta]"
    by (simp add: add_mset_commute)
  note run = aggregate_alpha_beta[of "datetime_hms 2024 3 15 10 0 0"]
  from aggregate_order_irrelevant[OF perm run] perm run show ?thesis by blast
qed

section \<open>Entries with missing or unreadable timestamps\<close>

lemma report_loop_append:
  "report_loop parse now lo hi st (xs @ ys) =
     (case report_loop parse now lo hi st xs of
        Inl err \<Rightarrow> Inl err
      | Inr st1 \<Rightarrow> report_loop parse now lo hi st1 ys)"
  by (induction xs arbitrary: st) (simp_all split: sum.splits)

lemma process_entry_no_start:
  "\<not> truthy (e ''start'') \<Longrightarrow> process_entry parse now lo hi st e = Inr st"
  by (simp add: process_entry_def Let_def)

lemma missing_start_skipped:
  assumes "\<not> truthy (e ''start'')"
  shows "aggregate parse now lo hi (xs @ e # ys) = aggregate parse now lo hi (xs @ ys)"
  unfolding aggregate_def report_loop_append
  using assms by (simp add: process_entry_no_start split: sum.splits)

lemma missing_end_runs_until_now:
  assumes "truthy (e ''start'')" "parse (str_of (e ''start'')) = Inr start"
    and "\<not> truthy (e ''end'')"
  shows "process_entry parse now lo hi st e =
        (case clamp_interval start now lo hi of
           None \<Rightarrow> Inr st
         | Some (cur_start, cur_end) \<Rightarrow> split_loop (entry_project e) cur_start cur_end st)"
  using assms
  by (simp add: process_entry_def effective_end_def entry_project_def Let_def
      split: option.splits)

lemma unparsable_start_raises:
  assumes "truthy (e ''start'')" "parse (str_of (e ''start'')) = Inl err"
  shows "process_entry parse now lo hi st e = Inl err"
  using assms by (simp add: process_entry_def Let_def)

lemma unparsable_start_aborts:
  assumes "report_loop parse now lo hi ([], []) xs = Inr st"
    and "truthy (e ''start'')" "parse (str_of (e ''start'')) = Inl err"
  shows "aggregate parse now lo hi (xs @ e # ys) = Inl err"
  unfolding aggregate_def report_loop_append
  using assms by (simp add: unparsable_start_raises)

lemma aggregate_examples:
  "aggregate fromisoformat_seconds (datetime_hms 2024 3 1 10 0 0)
     (datetime_hms 2024 3 1 0 0 0) (datetime_hms 2024 4 1 0 0 0) [entry_running] =
   Inr ([(''2024-03-01'', [(JStr ''alpha'', 60 * US_PER_MINUTE)])],
        [(JStr ''alpha'', 60 * US_PER_MINUTE)])"
  "aggregate fromisoformat_seconds (datetime_hms 2024 3 1 10 0 0)
     (datetime_hms 2024 3 1 0 0 0) (datetime_hms 2024 4 1 0 0 0) [] = Inr ([], [])"
  "aggregate fromisoformat_seconds (datetime_hms 2024 3 15 10 0 0)
     (datetime_hms 2024 3 1 0 0 0) (datetime_hms 2024 4 1 0 0 0) [entry_garbled, entry_beta] =
   Inl (ValueError ''Invalid isoformat string'')"
  "aggregate fromisoformat_seconds (datetime_hms 2024 3 15 10 0 0)
     (datetime_hms 2024 3 1 0 0 0) (datetime_hms 2024 4 1 0 0 0) [entry_beta] =
   Inr ([(''2024-03-01'', [(JStr ''beta'', 45 * US_PER_MINUTE)])],
        [(JStr ''beta'', 45 * US_PER_MINUTE)])"
     apply (simp add: totals_eval US_PER_MINUTE_def, simp add: entry_running_def)
    apply (simp add: aggregate_def)
   apply (simp add: totals_eval)
  apply (simp add: totals_eval US_PER_MINUTE_def, simp add: entry_beta_def)
  done

text \<open>
  Claim C1 says that a record whose start or end timestamp is missing or cannot be parsed
  is skipped without an error, the other records being aggregated as usual. The report
  loop does this for a missing start only (\<^verbatim>\<open>if not start_s: continue\<close>): the ledger
  with \<open>entry_no_start\<close> between \<open>entry_alpha\<close> and \<open>entry_beta\<close> aggregates as the
  ledger of these two. It then calls \<^verbatim>\<open>datetime.fromisoformat\<close> outside any
  \<^verbatim>\<open>try\<close>. The start of \<open>entry_garbled\<close> is the text \<^verbatim>\<open>yesterday\<close>: parsing it
  raises \<^verbatim>\<open>ValueError\<close>, nothing catches it, and the aggregation of the ledger of
  \<open>entry_garbled\<close> and \<open>entry_beta\<close> ends with that error, where the claim has the
  45 minutes of beta that the ledger of \<open>entry_beta\<close> alone gives.
\<close>

theorem malformed_record_aborts_report:
  "truthy (entry_garbled ''start'') \<and>
   str_of (entry_garbled ''start'') = ''yesterday'' \<and>
   fromisoformat_seconds ''yesterday'' = Inl (ValueError ''Invalid isoformat string'') \<and>
   aggregate fromisoformat_seconds (datetime_hms 2024 3 15 10 0 0)
     (datetime_hms 2024 3 1 0 0 0) (datetime_hms 2024 4 1 0 0 0) [entry_garbled, entry_beta] =
     Inl (ValueError ''Invalid isoformat string'') \<and>
   aggregate fromisoformat_seconds (datetime_hms 2024 3 15 10 0 0)
     (datetime_hms 2024 3 1 0 0 0) (datetime_hms 2024 4 1 0 0 0) [entry_beta] =
     Inr ([(''2024-03-01'', [(JStr ''beta'', 45 * US_PER_MINUTE)])],
          [(JStr ''beta'', 45 * US_PER_MINUTE)]) \<and>
   aggregate fromisoformat_seconds (datetime_hms 2024 3 15 10 0 0)
     (datetime_hms 2024 3 1 0 0 0) (datetime_hms 2024 4 1 0 0 0)
     [entry_alpha, entry_no_start, entry_beta] =
   aggregate fromisoformat_seconds (datetime_hms 2024 3 15 10 0 0)
     (datetime_hms 2024 3 1 0 0 0) (datetime_hms 2024 4 1 0 0 0) [entry_alpha, entry_beta]"
proof -
  have g: "truthy (entry_garbled ''start'')" "str_of (entry_garbled ''start'') = ''yesterday''"
    by (simp_all add: entry_garbled_def truthy_def str_of_def)
  have n: "\<not> truthy (entry_no_start ''start'')"
    by (simp add: entry_no_start_def truthy_def)
  have skip: "aggregate fromisoformat_seconds (datetime_hms 2024 3 15 10 0 0)
     (datetime_hms 2024 3 1 0 0 0) (datetime_hms 2024 4 1 0 0 0)
     [entry_alpha, entry_no_start, entry_beta] =
   aggregate fromisoformat_seconds (datetime_hms 2024 3 15 10 0 0)
     (datetime_hms 2024 3 1 0 0 0) (datetime_hms 2024 4 1 0 0 0) [entry_alpha, entry_beta]"
    using n missing_start_skipped[where e = entry_no_start and xs = "[entry_alpha]"
        and ys = "[entry_beta]"]
    by simp
  note ex = aggregate_examples(3,4) parse_examples(4)
  from g ex skip show ?thesis by (intro conjI)
qed

section \<open>Grouping the days of the month by ISO week\<close>

subsection \<open>One round of the grouping loop\<close>

lemma update_absent: "map_of al k = None \<Longrightarrow> AList.update k v al = al @ [(k, v)]"
  by (induction al) (auto split: if_splits)

lemma first_occurrence:
  "map_of al k = Some b \<Longrightarrow> \<exists>pre post. al = pre @ (k, b) # post \<and> k \<notin> fst ` set pre"
proof (induction al)
  case Nil
  then show ?case by simp
next
  case (Cons p al)
  show ?case
  proof (cases "fst p = k")
    case True
    with Cons.prems have "p = (k, b)" by (cases p) simp
    then have "p # al = [] @ (k, b) # al \<and> k \<notin> fst ` set []" by simp
    then show ?thesis by blast
  next
    case False
    with Cons.prems have "map_of al k = Some b" by (cases p) (simp split: if_splits)
    from Cons.IH[OF this] obtain pre post where
      "al = pre @ (k, b) # post" "k \<notin> fst ` set pre" by blast
    with False have "p # al = (p # pre) @ (k, b) # post \<and> k \<notin> fst ` set (p # pre)" by auto
    then show ?thesis by blast
  qed
qed

lemma update_present:
  "k \<notin> fst ` set pre \<Longrightarrow> AList.update k v (pre @ (k, b) # post) = pre @ (k, v) # post"
  by (induction pre) auto

lemma weeks_step_update:
  "weeks_step key weeks dday =
     AList.update (key dday) (dict_get weeks (key dday) [] @ [dday]) weeks"
proof (cases "map_of weeks (key dday)")
  case None
  then have "AList.update (key dday) [] weeks = weeks @ [(key dday, [])]"
    by (rule update_absent)
  moreover have "AList.update (key dday) v (weeks @ [(key dday, [])]) = weeks @ [(key dday, v)]" for v
    using None update_present[of "key dday" weeks v "[]" "[]"]
    by (simp add: map_of_eq_None_iff)
  moreover have "AList.update (key dday) v weeks = weeks @ [(key dday, v)]" for v
    using None by (rule update_absent)
  ultimately show ?thesis using None
    by (simp add: weeks_step_def Let_def dict_get_def map_add_def)
next
  case (Some b)
  then show ?thesis by (simp add: weeks_step_def Let_def)
qed

lemma grouped_empty: "grouped key [] []"
  by (simp add: grouped_def)

lemma grouped_step:
  assumes g: "grouped key days weeks" and asc: "\<forall>d\<in>set days. d < x"
  shows "grouped key (days @ [x]) (weeks_step key weeks x)"
proof -
  from g have dist: "distinct (map fst weeks)"
    and cover: "key ` set days \<subseteq> fst ` set weeks"
    and buckets: "\<And>k b. (k, b) \<in> set weeks \<Longrightarrow> b \<noteq> [] \<and> b = filter (\<lambda>d. key d = k) days"
    and firsts: "sorted_wrt (<) (map (hd \<circ> snd) weeks)"
    unfolding grouped_def by blast+
  show ?thesis
  proof (cases "map_of weeks (key x)")
    case None
    then have absent: "key x \<notin> fst ` set weeks" by (simp add: map_of_eq_None_iff)
    have res: "weeks_step key weeks x = weeks @ [(key x, [x])]"
      using None by (simp add: weeks_step_update update_absent dict_get_def)
    have none_before: "filter (\<lambda>d. key d = key x) days = []"
    proof -
      have "key d \<noteq> key x" if "d \<in> set days" for d
        using that absent cover by (metis image_eqI subsetD)
      then show ?thesis by (simp add: filter_empty_conv)
    qed
    have c1: "distinct (map fst (weeks @ [(key x, [x])]))" using dist absent by simp
    have c2: "key ` set (days @ [x]) \<subseteq> fst ` set (weeks @ [(key x, [x])])"
      using cover by auto
    have c3: "b \<noteq> [] \<and> b = filter (\<lambda>d. key d = k) (days @ [x])"
      if "(k, b) \<in> set (weeks @ [(key x, [x])])" for k b
    proof (cases "(k, b) \<in> set weeks")
      case True
      then have "k \<noteq> key x" using absent by force
      then have "filter (\<lambda>d. key d = k) (days @ [x]) = filter (\<lambda>d. key d = k) days"
        by auto
      with buckets[OF True] show ?thesis by metis
    next
      case False
      with that have "k = key x" "b = [x]" by simp_all
      then show ?thesis using none_before by simp
    qed
    have "hd b < x" if "(k, b) \<in> set weeks" for k b
    proof -
      from buckets[OF that] have "b \<noteq> []" "set b \<subseteq> set days" by auto
      then have "hd b \<in> set days" by (metis hd_in_set subsetD)
      with asc show ?thesis by blast
    qed
    then have c4: "sorted_wrt (<) (map (hd \<circ> snd) (weeks @ [(key x, [x])]))"
      using firsts by (auto simp: sorted_wrt_append)
    show ?thesis unfolding res grouped_def using c1 c2 c3 c4 by blast
  next
    case (Some b0)
    from first_occurrence[OF Some] obtain pre post where
      split: "weeks = pre @ (key x, b0) # post" and pre: "key x \<notin> fst ` set pre" by blast
    have res: "weeks_step key weeks x = pre @ (key x, b0 @ [x]) # post"
      using Some update_present[OF pre, of "b0 @ [x]" b0 post]
      by (simp add: weeks_step_update dict_get_def split)
    have "(key x, b0) \<in> set weeks" by (simp add: split)
    from buckets[OF this]
    have b0: "b0 \<noteq> []" "b0 = filter (\<lambda>d. key d = key x) days" by blast+
    have post: "key x \<notin> fst ` set post" using dist by (auto simp: split)
    have c1: "distinct (map fst (pre @ (key x, b0 @ [x]) # post))"
      using dist by (simp add: split)
    have c2: "key ` set (days @ [x]) \<subseteq> fst ` set (pre @ (key x, b0 @ [x]) # post)"
      using cover by (auto simp: split)
    have c3: "b \<noteq> [] \<and> b = filter (\<lambda>d. key d = k) (days @ [x])"
      if "(k, b) \<in> set (pre @ (key x, b0 @ [x]) # post)" for k b
    proof (cases "k = key x")
      case True
      with that pre post have "b = b0 @ [x]" by force
      moreover have "filter (\<lambda>d. key d = k) (days @ [x]) = b0 @ [x]"
        using b0(2) True by simp
      ultimately show ?thesis by simp
    next
      case False
      with that have "(k, b) \<in> set weeks" by (auto simp: split)
      moreover have "filter (\<lambda>d. key d = k) (days @ [x]) = filter (\<lambda>d. key d = k) days"
        using False by auto
      ultimately show ?thesis using buckets[of k b] by metis
    qed
    have "hd (b0 @ [x]) = hd b0" using b0(1) by simp
    then have c4: "sorted_wrt (<) (map (hd \<circ> snd) (pre @ (key x, b0 @ [x]) # post))"
      using firsts by (simp add: split)
    show ?thesis unfolding res grouped_def using c1 c2 c3 c4 by blast
  qed
qed

lemma grouped_foldl:
  "sorted_wrt (<) days \<Longrightarrow> grouped key days (foldl (weeks_step key) [] days)"
proof (induction days rule: rev_induct)
  case Nil
  then show ?case by (simp add: grouped_empty)
next
  case (snoc x days)
  from snoc.prems have asc: "sorted_wrt (<) days" "\<forall>d\<in>set days. d < x"
    by (simp_all add: sorted_wrt_append)
  from grouped_step[OF snoc.IH[OF asc(1)] asc(2)] show ?case by simp
qed

subsection \<open>The days of the window\<close>

lemma midnight_lt_iff: "midnight d < hi \<longleftrightarrow> d \<le> toordinal (hi - 1)"
proof -
  have "toordinal (hi - 1) < d \<longleftrightarrow> hi - 1 < midnight d" by (rule toordinal_lt_iff)
  then show ?thesis by auto
qed

lemma days_loop_stop: "\<not> midnight dcur < hi \<Longrightarrow> days_loop dcur hi days = Inr days"
  by (subst days_loop.simps) simp

lemma days_loop_step:
  "midnight dcur < hi \<Longrightarrow> date_add_days dcur 1 = Inr dnext \<Longrightarrow>
     days_loop dcur hi days = days_loop dnext hi (days @ [dcur])"
  by (subst days_loop.simps) simp

lemma days_loop_upto:
  "0 \<le> dcur \<Longrightarrow> toordinal (hi - 1) < MAXORDINAL \<Longrightarrow>
     days_loop dcur hi days = Inr (days @ [dcur .. toordinal (hi - 1)])"
proof (induction dcur hi days rule: days_loop.induct)
  case (1 dcur hi days)
  show ?case
  proof (cases "midnight dcur < hi")
    case False
    then have "toordinal (hi - 1) < dcur" by (simp add: midnight_lt_iff)
    then have "[dcur .. toordinal (hi - 1)] = []" by simp
    with False show ?thesis by (simp add: days_loop_stop)
  next
    case True
    then have le: "dcur \<le> toordinal (hi - 1)" by (simp add: midnight_lt_iff)
    with "1.prems" have nx: "date_add_days dcur 1 = Inr (dcur + 1)"
      by (simp add: date_add_days_def Let_def)
    have "0 \<le> dcur + 1" using "1.prems"(1) by simp
    from "1.IH"[OF True nx this "1.prems"(2)]
    have "days_loop (dcur + 1) hi (days @ [dcur]) =
            Inr ((days @ [dcur]) @ [dcur + 1 .. toordinal (hi - 1)])" .
    moreover have "[dcur .. toordinal (hi - 1)] = dcur # [dcur + 1 .. toordinal (hi - 1)]"
      using le by (rule upto_rec1)
    ultimately show ?thesis using days_loop_step[OF True nx] by simp
  qed
qed

lemma strictly_ascending_upto: "sorted_wrt (<) [i .. j :: int]"
  by (simp add: strict_sorted_iff)

subsection \<open>Week coverage\<close>

lemma grouped_one_bucket:
  assumes "grouped key days weeks" "d \<in> set days"
  shows "\<exists>!i. i < length weeks \<and> d \<in> set (snd (weeks ! i))"
proof -
  from assms(1) have dist: "distinct (map fst weeks)"
    and cover: "key ` set days \<subseteq> fst ` set weeks"
    and buckets: "\<And>k b. (k, b) \<in> set weeks \<Longrightarrow> b = filter (\<lambda>d. key d = k) days"
    unfolding grouped_def by blast+
  have key_of: "key d = fst (weeks ! j)" if "j < length weeks" "d \<in> set (snd (weeks ! j))" for j
  proof -
    from that(1) have "(fst (weeks ! j), snd (weeks ! j)) \<in> set weeks" by simp
    from buckets[OF this] that(2) show ?thesis by (metis (mono_tags, lifting) mem_Collect_eq set_filter)
  qed
  from cover assms(2) obtain k b where kb: "(k, b) \<in> set weeks" "k = key d" by force
  then obtain i where i: "i < length weeks" "weeks ! i = (k, b)" by (auto simp: in_set_conv_nth)
  from buckets[OF kb(1)] kb(2) assms(2) have "d \<in> set b" by simp
  with i have ex: "i < length weeks \<and> d \<in> set (snd (weeks ! i))" by simp
  have "j = i" if "j < length weeks \<and> d \<in> set (snd (weeks ! j))" for j
  proof -
    from that key_of have "fst (weeks ! j) = fst (weeks ! i)" using ex by metis
    then have "map fst weeks ! j = map fst weeks ! i" using that i(1) by simp
    moreover have "j < length (map fst weeks)" "i < length (map fst weeks)"
      using that i(1) by simp_all
    ultimately show ?thesis using dist by (metis nth_eq_iff_index_eq)
  qed
  with ex show ?thesis by blast
qed

lemma grouped_bucket:
  assumes "grouped key days weeks" "sorted_wrt (<) days" "i < length weeks"
  shows "snd (weeks ! i) \<noteq> []" "sorted_wrt (<) (snd (weeks ! i))"
    and "\<forall>d\<in>set (snd (weeks ! i)). d \<in> set days \<and> key d = fst (weeks ! i)"
proof -
  from assms(3) have "(fst (weeks ! i), snd (weeks ! i)) \<in> set weeks" by simp
  with assms(1) have ne: "snd (weeks ! i) \<noteq> []"
    and eq: "snd (weeks ! i) = filter (\<lambda>d. key d = fst (weeks ! i)) days"
    unfolding grouped_def by blast+
  show "snd (weeks ! i) \<noteq> []" by (rule ne)
  show "sorted_wrt (<) (snd (weeks ! i))"
    by (subst eq) (rule sorted_wrt_filter[OF assms(2)])
  show "\<forall>d\<in>set (snd (weeks ! i)). d \<in> set days \<and> key d = fst (weeks ! i)"
    by (subst eq) simp
qed

text \<open>
  Claim C9. For the window of a full calendar month, as \<^verbatim>\<open>cmd_report\<close> builds it
  from \<open>now\<close>, the days of the window are listed in ascending order, and grouping them
  by ISO week puts every day of the window in exactly one week bucket; each bucket is not
  empty, holds days of the window of its own ISO week in ascending order, no week has two
  buckets, and the buckets come in the ascending order of their first days.
\<close>

theorem week_coverage:
  assumes "cmd_report_window now = Inr (month_start, month_end)"
  shows "\<exists>days weeks.
     days_loop (toordinal month_start) month_end [] = Inr days \<and>
     cmd_report_weeks month_start month_end = Inr weeks \<and>
     sorted_wrt (<) days \<and>
     set days = {d. toordinal month_start \<le> d \<and> midnight d < month_end} \<and>
     (\<forall>d\<in>set days. \<exists>!i. i < length weeks \<and> d \<in> set (snd (weeks ! i))) \<and>
     (\<forall>i<length weeks.
        snd (weeks ! i) \<noteq> [] \<and> sorted_wrt (<) (snd (weeks ! i)) \<and>
        (\<forall>d\<in>set (snd (weeks ! i)). d \<in> set days \<and> iso_week_key d = fst (weeks ! i))) \<and>
     distinct (map fst weeks) \<and>
     sorted_wrt (<) (map (hd \<circ> snd) weeks)"
proof -
  let ?days = "[toordinal month_start .. toordinal (month_end - 1)]"
  let ?weeks = "group_weeks ?days"
  from cmd_report_window_bounds[OF assms]
  have lo: "1 \<le> toordinal month_start" and hi: "toordinal month_end < MAXORDINAL" by simp_all
  have "toordinal (month_end - 1) \<le> toordinal month_end" by (rule toordinal_mono) simp
  with hi have hi1: "toordinal (month_end - 1) < MAXORDINAL" by simp
  from lo have "0 \<le> toordinal month_start" by simp
  from days_loop_upto[OF this hi1, of "[]"]
  have days: "days_loop (toordinal month_start) month_end [] = Inr ?days" by simp
  then have weeks: "cmd_report_weeks month_start month_end = Inr ?weeks"
    by (simp add: cmd_report_weeks_def)
  have asc: "sorted_wrt (<) ?days" by (rule strictly_ascending_upto)
  have set: "set ?days = {d. toordinal month_start \<le> d \<and> midnight d < month_end}"
    by (auto simp: midnight_lt_iff)
  have g: "grouped iso_week_key ?days ?weeks"
    unfolding group_weeks_def using asc by (rule grouped_foldl)
  have one: "\<forall>d\<in>set ?days. \<exists>!i. i < length ?weeks \<and> d \<in> set (snd (?weeks ! i))"
    using grouped_one_bucket[OF g] by blast
  have each: "\<forall>i<length ?weeks.
        snd (?weeks ! i) \<noteq> [] \<and> sorted_wrt (<) (snd (?weeks ! i)) \<and>
        (\<forall>d\<in>set (snd (?weeks ! i)). d \<in> set ?days \<and> iso_week_key d = fst (?weeks ! i))"
    using grouped_bucket[OF g asc] by blast
  from g have dist: "distinct (map fst ?weeks)"
    and firsts: "sorted_wrt (<) (map (hd \<circ> snd) ?weeks)"
    unfolding grouped_def by blast+
  from days weeks asc set one each dist firsts show ?thesis by blast
qed


lemma cmd_report_window_march_2024:
  "cmd_report_window (datetime_hms 2024 3 15 10 0 0) =
     Inr (datetime_hms 2024 3 1 0 0 0, datetime_hms 2024 4 1 0 0 0)"
  by code_simp

lemma days_march_2024:
  "days_loop (toordinal (datetime_hms 2024 3 1 0 0 0)) (datetime_hms 2024 4 1 0 0 0) [] =
     Inr [ymd2ord 2024 3 1 .. ymd2ord 2024 3 31]"
proof -
  have a: "toordinal (datetime_hms 2024 3 1 0 0 0) = ymd2ord 2024 3 1"
    and b: "toordinal (datetime_hms 2024 4 1 0 0 0 - 1) = ymd2ord 2024 3 31"
    by (simp_all add: time_eval cal_eval)
  have "0 \<le> ymd2ord 2024 3 1" and "ymd2ord 2024 3 31 < MAXORDINAL"
    by (simp_all add: cal_eval MAXORDINAL_def)
  with days_loop_upto[of "ymd2ord 2024 3 1" "datetime_hms 2024 4 1 0 0 0" "[]"]
  show ?thesis unfolding a b by simp
qed

theorem week_coverage_witness:
  "cmd_report_window (datetime_hms 2024 3 15 10 0 0) =
     Inr (datetime_hms 2024 3 1 0 0 0, datetime_hms 2024 4 1 0 0 0) \<and>
   (\<exists>weeks.
      cmd_report_weeks (datetime_hms 2024 3 1 0 0 0) (datetime_hms 2024 4 1 0 0 0) = Inr weeks \<and>
      (\<forall>d\<in>{ymd2ord 2024 3 1 .. ymd2ord 2024 3 31}.
         \<exists>!i. i < length weeks \<and> d \<in> set (snd (weeks ! i))) \<and>
      (\<forall>i<length weeks. snd (weeks ! i) \<noteq> [] \<and> sorted_wrt (<) (snd (weeks ! i))) \<and>
      sorted_wrt (<) (map (hd \<circ> snd) weeks))"
proof -
  note w = cmd_report_window_march_2024
  from week_coverage[OF w] obtain days weeks where
    days: "days_loop (toordinal (datetime_hms 2024 3 1 0 0 0)) (datetime_hms 2024 4 1 0 0 0) []
             = Inr days"
    and weeks: "cmd_report_weeks (datetime_hms 2024 3 1 0 0 0) (datetime_hms 2024 4 1 0 0 0)
             = Inr weeks"
    and one: "\<forall>d\<in>set days. \<exists>!i. i < length weeks \<and> d \<in> set (snd (weeks ! i))"
    and each: "\<forall>i<length weeks.
        snd (weeks ! i) \<noteq> [] \<and> sorted_wrt (<) (snd (weeks ! i)) \<and>
        (\<forall>d\<in>set (snd (weeks ! i)). d \<in> set days \<and> iso_week_key d = fst (weeks ! i))"
    and firsts: "sorted_wrt (<) (map (hd \<circ> snd) weeks)"
    by blast
  from days have "set days = {ymd2ord 2024 3 1 .. ymd2ord 2024 3 31}"
    unfolding days_march_2024 by auto
  with one have "\<forall>d\<in>{ymd2ord 2024 3 1 .. ymd2ord 2024 3 31}.
         \<exists>!i. i < length weeks \<and> d \<in> set (snd (weeks ! i))" by simp
  moreover from each have
    "\<forall>i<length weeks. snd (weeks ! i) \<noteq> [] \<and> sorted_wrt (<) (snd (weeks ! i))" by blast
  ultimately show ?thesis using w weeks firsts by blast
qed

end
